theory Spec2Isabelle
  imports Complex_Main
begin

section \<open>Subscribable: the priority-ordered callback registry (src/lib/subs.ts)\<close>

text \<open>
  The class keeps one private field, \<^verbatim>\<open>#subscribers\<close>, holding a reference to an
  array of \<^verbatim>\<open>{ fn, priority, id }\<close> objects. \<^verbatim>\<open>add\<close> mutates that array in place
  (\<^verbatim>\<open>push\<close>, \<^verbatim>\<open>splice\<close>); \<^verbatim>\<open>remove\<close> assigns a fresh, filtered array to the field;
  \<^verbatim>\<open>notify\<close> runs \<^verbatim>\<open>forEach\<close> on the array the field refers to when it starts. Which
  array object a callback changes therefore matters, and the model keeps an explicit store
  of array objects, addressed by natural numbers. The \<^verbatim>\<open>Scroll\<close> instance carries a
  textual copy of the same three methods.

  A subscriber function is opaque to the class. It is modelled by a tag, which names it in
  the log of invocations, and by the calls it makes on the registry when it runs, in order:
  \<^verbatim>\<open>add\<close>, \<^verbatim>\<open>remove\<close> (also what the unsubscribe closure returned by \<^verbatim>\<open>add\<close>
  does), or a \<^verbatim>\<open>throw\<close>. A callback that calls \<^verbatim>\<open>notify\<close> itself is not modelled.
  Priorities are integers, symbols are natural numbers.
\<close>

datatype cmd = CAdd callback int nat | CRemove nat | CThrow
and callback = Callback (tag: nat) (body: "cmd list")

record subscriber =
  fn :: callback
  priority :: int
  ident :: nat

record 'd subscribable =
  store :: "nat \<Rightarrow> subscriber list"
  subscribers :: nat
  next_addr :: nat
  calls :: "(nat \<times> 'd) list"

datatype completion = Returned | Threw nat

text \<open>A new instance: the field refers to a fresh empty array.\<close>

definition new_subscribable :: "'d subscribable" where
  "new_subscribable =
     \<lparr>store = (\<lambda>_. []), subscribers = 0, next_addr = 1, calls = []\<rparr>"

text \<open>\<^verbatim>\<open>Array.prototype.findIndex\<close>; \<open>None\<close> stands for the result \<^verbatim>\<open>-1\<close>.\<close>

fun findIndex :: "('a \<Rightarrow> bool) \<Rightarrow> 'a list \<Rightarrow> nat option" where
  "findIndex P [] = None"
| "findIndex P (x # xs) =
     (if P x then Some 0 else map_option Suc (findIndex P xs))"

text \<open>\<^verbatim>\<open>arr.splice(index, 0, item)\<close>: insert in front of position \<open>index\<close>.\<close>

definition splice0 :: "nat \<Rightarrow> 'a \<Rightarrow> 'a list \<Rightarrow> 'a list" where
  "splice0 index item arr = take index arr @ item # drop index arr"

definition add :: "callback \<Rightarrow> int \<Rightarrow> nat \<Rightarrow> 'd subscribable \<Rightarrow> 'd subscribable" where
  "add f p i s =
     (let a = subscribers s;
          arr = store s a;
          entry = \<lparr>fn = f, priority = p, ident = i\<rparr>
      in case findIndex (\<lambda>sub. priority sub > p) arr of
           None \<Rightarrow> s\<lparr>store := (store s)(a := arr @ [entry])\<rparr>
         | Some index \<Rightarrow> s\<lparr>store := (store s)(a := splice0 index entry arr)\<rparr>)"

definition remove :: "nat \<Rightarrow> 'd subscribable \<Rightarrow> 'd subscribable" where
  "remove i s =
     s\<lparr>store := (store s)(next_addr s := filter (\<lambda>f. ident f \<noteq> i) (store s (subscribers s))),
       subscribers := next_addr s,
       next_addr := Suc (next_addr s)\<rparr>"

text \<open>Running the body of a subscriber function: its registry calls in order, up to a throw.\<close>

fun run_body :: "cmd list \<Rightarrow> 'd subscribable \<Rightarrow> bool \<times> 'd subscribable" where
  "run_body [] s = (True, s)"
| "run_body (CAdd f p i # cs) s = run_body cs (add f p i s)"
| "run_body (CRemove i # cs) s = run_body cs (remove i s)"
| "run_body (CThrow # cs) s = (False, s)"

definition invoke :: "subscriber \<Rightarrow> 'd \<Rightarrow> 'd subscribable \<Rightarrow> completion \<times> 'd subscribable" where
  "invoke f d s =
     (case run_body (body (fn f)) (s\<lparr>calls := calls s @ [(tag (fn f), d)]\<rparr>) of
        (True, s') \<Rightarrow> (Returned, s')
      | (False, s') \<Rightarrow> (Threw (tag (fn f)), s'))"

text \<open>
  \<^verbatim>\<open>Array.prototype.forEach\<close> on the array object at address \<open>a\<close>: the length is read
  once, before the first call; index \<open>k\<close> is visited if it is still present, and the element
  is read from the array as it is at that moment. \<open>n\<close> counts the indices still to visit.
  An exception thrown by a callback ends the loop and propagates.
\<close>

fun forEach_from :: "nat \<Rightarrow> nat \<Rightarrow> nat \<Rightarrow> 'd \<Rightarrow> 'd subscribable \<Rightarrow> completion \<times> 'd subscribable" where
  "forEach_from a k 0 d s = (Returned, s)"
| "forEach_from a k (Suc n) d s =
     (if k < length (store s a) then
        (case invoke (store s a ! k) d s of
           (Threw t, s') \<Rightarrow> (Threw t, s')
         | (Returned, s') \<Rightarrow> forEach_from a (Suc k) n d s')
      else forEach_from a (Suc k) n d s)"

definition notify :: "'d \<Rightarrow> 'd subscribable \<Rightarrow> completion \<times> 'd subscribable" where
  "notify d s =
     (let a = subscribers s
      in if length (store s a) < 1 then (Returned, s)
         else forEach_from a 0 (length (store s a)) d s)"

text \<open>A sequence of \<^verbatim>\<open>add(fn, priority, id)\<close> calls on an instance, first call first.\<close>

definition entry_of :: "callback \<times> int \<times> nat \<Rightarrow> subscriber" where
  "entry_of x = (case x of (f, p, i) \<Rightarrow> \<lparr>fn = f, priority = p, ident = i\<rparr>)"

definition add_all :: "(callback \<times> int \<times> nat) list \<Rightarrow> 'd subscribable \<Rightarrow> 'd subscribable" where
  "add_all xs s = foldl (\<lambda>s' x. case x of (f, p, i) \<Rightarrow> add f p i s') s xs"

text \<open>The array the field of an instance refers to.\<close>

definition current :: "'d subscribable \<Rightarrow> subscriber list" where
  "current s = store s (subscribers s)"

text \<open>
  Subscriber functions that leave the array under iteration alone: they may unsubscribe
  (themselves or others) and may throw, but do not call \<^verbatim>\<open>add\<close>.
\<close>

fun no_add :: "cmd \<Rightarrow> bool" where
  "no_add (CAdd f p i) = False"
| "no_add (CRemove i) = True"
| "no_add CThrow = True"

fun is_remove :: "cmd \<Rightarrow> bool" where
  "is_remove (CRemove i) = True"
| "is_remove c = False"

definition adds_nothing :: "subscriber \<Rightarrow> bool" where
  "adds_nothing e = list_all no_add (body (fn e))"

definition only_removes :: "subscriber \<Rightarrow> bool" where
  "only_removes e = list_all is_remove (body (fn e))"

definition throws :: "subscriber \<Rightarrow> bool" where
  "throws e = (CThrow \<in> set (body (fn e)))"

definition called :: "'d \<Rightarrow> subscriber \<Rightarrow> nat \<times> 'd" where
  "called d e = (tag (fn e), d)"

text \<open>
  Proof devices for the registry: the well-formedness of the store (the field refers to an
  allocated array), \<^verbatim>\<open>add\<close>'s insertion seen as a function of the array, and the
  symbols a subscriber function removes.
\<close>

definition wf :: "'d subscribable \<Rightarrow> bool" where
  "wf s = (subscribers s < next_addr s)"

definition place :: "subscriber \<Rightarrow> subscriber list \<Rightarrow> subscriber list" where
  "place e arr =
     (case findIndex (\<lambda>sub. priority sub > priority e) arr of
        None \<Rightarrow> arr @ [e]
      | Some index \<Rightarrow> splice0 index e arr)"

fun removed_ids :: "cmd list \<Rightarrow> nat list" where
  "removed_ids [] = []"
| "removed_ids (CRemove i # cs) = i # removed_ids cs"
| "removed_ids (c # cs) = removed_ids cs"

definition removed_by :: "subscriber list \<Rightarrow> nat list" where
  "removed_by xs = concat (map (\<lambda>e. removed_ids (body (fn e))) xs)"

text \<open>
  Registries built by calls of \<^verbatim>\<open>add\<close> on a new instance, for the examples: four
  subscribers with two priorities; one whose second subscriber throws; one whose first
  subscriber unsubscribes the second; one whose first subscriber subscribes a further
  function with a higher precedence and then unsubscribes the second; one whose first
  subscriber, of priority 0, subscribes two functions of priorities \<open>-2\<close> and \<open>-1\<close>.
\<close>

definition registry :: "(callback \<times> int \<times> nat) list \<Rightarrow> nat subscribable" where
  "registry xs = add_all xs new_subscribable"

definition four_adds :: "(callback \<times> int \<times> nat) list" where
  "four_adds =
     [(Callback 1 [], 5, 10), (Callback 2 [], 0, 11), (Callback 3 [], 5, 12), (Callback 4 [], 0, 13)]"


definition removing_adds :: "(callback \<times> int \<times> nat) list" where
  "removing_adds = [(Callback 1 [CRemove 11], 0, 10), (Callback 2 [], 0, 11)]"

definition swapping_adds :: "(callback \<times> int \<times> nat) list" where
  "swapping_adds =
     [(Callback 1 [CAdd (Callback 3 []) (- 1) 12, CRemove 11], 0, 10), (Callback 2 [], 0, 11)]"

definition reordering_adds :: "(callback \<times> int \<times> nat) list" where
  "reordering_adds =
     [(Callback 1 [CAdd (Callback 3 []) (- 2) 12, CAdd (Callback 4 []) (- 1) 13], 0, 10),
      (Callback 2 [], 1, 11)]"

section \<open>Resize: the debounced window-resize subscribable (src/lib/subs.ts)\<close>

text \<open>
  \<^verbatim>\<open>_Resize.update\<close> runs on every window \<^verbatim>\<open>resize\<close> event: it clears the pending
  timeout, if the field holds one, and sets a new one of \<^verbatim>\<open>debounceDelay = 100\<close> ms,
  whose callback compares the window's dimensions with the stored ones, stores and
  notifies them if they differ, and resets the field to \<^verbatim>\<open>null\<close>.

  Time is discrete, in milliseconds. The browser is its clock, the window's inner
  dimensions, the table of pending timeouts (identifier and due time; every timeout of the
  model is the one \<^verbatim>\<open>update\<close> sets) and the next identifier, which a browser draws
  from the positive integers. A timeout fires exactly when it is due, which is the
  earliest a browser may fire it. \<open>notified\<close> logs the calls of \<^verbatim>\<open>this.notify\<close> with
  the time and the data.
\<close>

record resize =
  width :: int
  height :: int
  timeoutId :: "nat option"
  notified :: "(nat \<times> int \<times> int) list"
  now :: nat
  innerWidth :: int
  innerHeight :: int
  timers :: "(nat \<times> nat) list"
  next_id :: nat

definition debounceDelay :: nat where
  "debounceDelay = 100"

definition clearTimeout :: "nat \<Rightarrow> resize \<Rightarrow> resize" where
  "clearTimeout i s = s\<lparr>timers := filter (\<lambda>t. fst t \<noteq> i) (timers s)\<rparr>"

definition setTimeout :: "nat \<Rightarrow> resize \<Rightarrow> nat \<times> resize" where
  "setTimeout delay s =
     (next_id s, s\<lparr>timers := timers s @ [(next_id s, now s + delay)], next_id := Suc (next_id s)\<rparr>)"

text \<open>\<^verbatim>\<open>if (this.timeoutId)\<close>: \<^verbatim>\<open>null\<close> and \<^verbatim>\<open>0\<close> are falsy.\<close>

definition update :: "resize \<Rightarrow> resize" where
  "update s =
     (let s1 = (case timeoutId s of
                  None \<Rightarrow> s
                | Some i \<Rightarrow> if i \<noteq> 0 then clearTimeout i s else s);
          (i, s2) = setTimeout debounceDelay s1
      in s2\<lparr>timeoutId := Some i\<rparr>)"

text \<open>The callback of the timeout.\<close>

definition settle :: "resize \<Rightarrow> resize" where
  "settle s =
     (let newWidth = innerWidth s;
          newHeight = innerHeight s;
          s1 = (if newWidth \<noteq> width s \<or> newHeight \<noteq> height s
                then s\<lparr>width := newWidth, height := newHeight,
                       notified := notified s @ [(now s, newWidth, newHeight)]\<rparr>
                else s)
      in s1\<lparr>timeoutId := None\<rparr>)"

text \<open>
  The event loop up to time \<open>t\<close>: the timeouts due by then fire in the order of their due
  times, each at its due time. The callback sets no timeout, so the timeouts to fire are
  those pending at the start.
\<close>

definition fire :: "nat \<times> nat \<Rightarrow> resize \<Rightarrow> resize" where
  "fire tm s = settle (s\<lparr>timers := filter (\<lambda>t. fst t \<noteq> fst tm) (timers s), now := max (now s) (snd tm)\<rparr>)"

definition advance :: "nat \<Rightarrow> resize \<Rightarrow> resize" where
  "advance t s =
     (let s1 = fold fire (sort_key snd (filter (\<lambda>tm. snd tm \<le> t) (timers s))) s
      in s1\<lparr>now := max (now s1) t\<rparr>)"

text \<open>A \<^verbatim>\<open>resize\<close> event at time \<open>t\<close>, after which the window measures \<open>w\<close> by \<open>h\<close>.\<close>

definition on_resize :: "resize \<Rightarrow> nat \<times> int \<times> int \<Rightarrow> resize" where
  "on_resize s ev =
     (case ev of (t, w, h) \<Rightarrow> update ((advance t s)\<lparr>innerWidth := w, innerHeight := h\<rparr>))"

text \<open>
  A burst: events at non-decreasing times, each less than 100 ms after the one before it;
  \<open>t0\<close> is the time of the event before the first of the list.
\<close>

fun burst :: "nat \<Rightarrow> (nat \<times> int \<times> int) list \<Rightarrow> bool" where
  "burst t0 [] = True"
| "burst t0 ((t, w, h) # es) = (t0 \<le> t \<and> t < t0 + 100 \<and> burst t es)"

text \<open>
  Between the events of a burst exactly one timeout is pending: the one the event at
  \<open>t0\<close> set, held by the field.
\<close>

definition pending :: "nat \<Rightarrow> resize \<Rightarrow> bool" where
  "pending t0 s =
     (case timers s of
        [(i, due)] \<Rightarrow>
          due = t0 + 100 \<and> timeoutId s = Some i \<and> i \<noteq> 0 \<and> i < next_id s \<and> now s = t0
      | _ \<Rightarrow> False)"

text \<open>A window of 1024 by 768 at rest, for the examples.\<close>

definition quiet0 :: resize where
  "quiet0 =
     \<lparr>width = 1024, height = 768, timeoutId = None, notified = [], now = 0,
      innerWidth = 1024, innerHeight = 768, timers = [], next_id = 1\<rparr>"

section \<open>The lifecycle registries and the page-transition controller\<close>

text \<open>
  The registries are module-level arrays of functions (the second half of
  src/utils/client-rect.ts); \<^verbatim>\<open>_Pages.transitionOut\<close> (src/lib/pages.ts) drives them.

  A registered function is opaque. It is modelled by a tag, which names it in the log of
  the functions run, and by what a call of it does: throw before it returns, or return a
  promise with a fate (it fulfils, it rejects, or it never settles). A function that
  returns no promise counts as one whose promise fulfils, which is how \<^verbatim>\<open>await\<close> and
  \<^verbatim>\<open>Promise.allSettled\<close> treat its value; \<^verbatim>\<open>forEach\<close> ignores what a \<^verbatim>\<open>destroy\<close>
  function returns. Registered functions that register further functions while a phase
  runs are not modelled.
\<close>

datatype fate = Fulfils | Rejects | NeverSettles

datatype behaviour = ThrowsSync | Returns fate

record user_fn =
  fn_tag :: nat
  fn_does :: behaviour

text \<open>The \<^verbatim>\<open>DOMRect\<close> that \<^verbatim>\<open>getBoundingClientRect\<close> returns, relative to the viewport.\<close>

record dom_rect =
  rect_top :: real
  rect_bottom :: real
  rect_left :: real
  rect_right :: real
  rect_width :: real
  rect_height :: real

text \<open>
  What \<^verbatim>\<open>onPageOut\<close> pushes: the function itself, or, when an element is given, the
  async closure over the element and the function.
\<close>

datatype pageOut_fn = Plain user_fn | Guarded nat user_fn

datatype event = Ran nat | ScrollToTop

record lifecycle =
  destroy :: "user_fn list"
  pageOut :: "pageOut_fn list"
  layout :: "nat \<Rightarrow> dom_rect"
  resize_height :: real
  scroll_pos :: real
  events :: "event list"

definition onDestroy :: "user_fn \<Rightarrow> lifecycle \<Rightarrow> lifecycle" where
  "onDestroy f s = s\<lparr>destroy := destroy s @ [f]\<rparr>"

definition onPageOut :: "user_fn \<Rightarrow> nat option \<Rightarrow> lifecycle \<Rightarrow> lifecycle" where
  "onPageOut f element s =
     (case element of
        Some el \<Rightarrow> s\<lparr>pageOut := pageOut s @ [Guarded el f]\<rparr>
      | None \<Rightarrow> s\<lparr>pageOut := pageOut s @ [Plain f]\<rparr>)"

text \<open>Calling a registered function: the call is logged, then it throws or returns.\<close>

definition call_fn :: "user_fn \<Rightarrow> lifecycle \<Rightarrow> fate option \<times> lifecycle" where
  "call_fn f s =
     (let s' = s\<lparr>events := events s @ [Ran (fn_tag f)]\<rparr>
      in case fn_does f of ThrowsSync \<Rightarrow> (None, s') | Returns p \<Rightarrow> (Some p, s'))"

definition isCurrentlyVisible :: "nat \<Rightarrow> lifecycle \<Rightarrow> bool" where
  "isCurrentlyVisible el s =
     (let rect = layout s el
      in rect_top rect < resize_height s \<and> rect_bottom rect > 0)"

text \<open>
  Calling an entry of \<^verbatim>\<open>pageOut\<close>. \<open>None\<close>: the call threw. The closure of a guarded
  entry is an async function, so it always returns a promise: the promise of the function
  when the element is visible (rejected if the function throws), a fulfilled one otherwise.
\<close>

fun call_pageOut :: "pageOut_fn \<Rightarrow> lifecycle \<Rightarrow> fate option \<times> lifecycle" where
  "call_pageOut (Plain f) s = call_fn f s"
| "call_pageOut (Guarded el f) s =
     (if isCurrentlyVisible el s then
        (case call_fn f s of
           (None, s') \<Rightarrow> (Some Rejects, s')
         | (Some p, s') \<Rightarrow> (Some p, s'))
      else (Some Fulfils, s))"

text \<open>\<^verbatim>\<open>pageOut.map((fn) => fn())\<close>: the calls in order; a call that throws ends the map.\<close>

fun map_calls :: "pageOut_fn list \<Rightarrow> lifecycle \<Rightarrow> fate list option \<times> lifecycle" where
  "map_calls [] s = (Some [], s)"
| "map_calls (c # cs) s =
     (case call_pageOut c s of
        (None, s') \<Rightarrow> (None, s')
      | (Some p, s') \<Rightarrow>
          (case map_calls cs s' of
             (None, s'') \<Rightarrow> (None, s'')
           | (Some ps, s'') \<Rightarrow> (Some (p # ps), s'')))"

text \<open>
  The outcome of awaiting an async function: its promise fulfils, rejects, or never
  settles. \<^verbatim>\<open>Promise.allSettled\<close> never rejects; it settles once every promise has.
\<close>

datatype outcome = Done | Rejected | Hangs

definition allSettled :: "fate list \<Rightarrow> outcome" where
  "allSettled ps = (if NeverSettles \<in> set ps then Hangs else Done)"

definition runPageOut :: "lifecycle \<Rightarrow> outcome \<times> lifecycle" where
  "runPageOut s =
     (case map_calls (pageOut s) s of
        (None, s') \<Rightarrow> (Rejected, s')
      | (Some ps, s') \<Rightarrow>
          (case allSettled ps of
             Done \<Rightarrow> (Done, s'\<lparr>pageOut := []\<rparr>)
           | other \<Rightarrow> (other, s')))"

text \<open>\<^verbatim>\<open>destroy.forEach((fn) => fn())\<close>; \<open>False\<close>: a call threw, which ends the loop.\<close>

fun forEach_call :: "user_fn list \<Rightarrow> lifecycle \<Rightarrow> bool \<times> lifecycle" where
  "forEach_call [] s = (True, s)"
| "forEach_call (f # fs) s =
     (case call_fn f s of
        (None, s') \<Rightarrow> (False, s')
      | (Some p, s') \<Rightarrow> forEach_call fs s')"

definition runDestroy :: "lifecycle \<Rightarrow> bool \<times> lifecycle" where
  "runDestroy s =
     (case forEach_call (destroy s) s of
        (False, s') \<Rightarrow> (False, s')
      | (True, s') \<Rightarrow> (True, s'\<lparr>destroy := []\<rparr>))"

text \<open>\<^verbatim>\<open>Scroll.toTop\<close>: \<^verbatim>\<open>scrollTo(0, { immediate: true })\<close>.\<close>

definition toTop :: "lifecycle \<Rightarrow> lifecycle" where
  "toTop s = s\<lparr>scroll_pos := 0, events := events s @ [ScrollToTop]\<rparr>"

text \<open>
  \<^verbatim>\<open>await Promise.allSettled([await runPageOut()])\<close>: the inner \<^verbatim>\<open>await\<close> comes first
  and passes a rejection of \<^verbatim>\<open>runPageOut\<close> on; the value it yields otherwise is no
  promise, so the outer join is over one settled entry.
\<close>

definition transitionOut :: "lifecycle \<Rightarrow> outcome \<times> lifecycle" where
  "transitionOut s =
     (case runPageOut s of
        (Done, s1) \<Rightarrow>
          (case allSettled [Fulfils] of
             Done \<Rightarrow>
               (case runDestroy s1 of
                  (False, s2) \<Rightarrow> (Rejected, s2)
                | (True, s2) \<Rightarrow> (Done, toTop s2))
           | other \<Rightarrow> (other, s1))
      | (other, s1) \<Rightarrow> (other, s1))"

text \<open>
  Read off \<open>call_pageOut\<close>: the functions the call of a \<^verbatim>\<open>pageOut\<close> entry runs,
  and the fate of the promise it returns (\<open>None\<close> when the call throws instead).
\<close>

definition runs :: "lifecycle \<Rightarrow> pageOut_fn \<Rightarrow> event list" where
  "runs s c =
     (case c of
        Plain f \<Rightarrow> [Ran (fn_tag f)]
      | Guarded el f \<Rightarrow> if isCurrentlyVisible el s then [Ran (fn_tag f)] else [])"

definition settles :: "lifecycle \<Rightarrow> pageOut_fn \<Rightarrow> fate option" where
  "settles s c = fst (call_pageOut c s)"

definition returns_promise :: "pageOut_fn \<Rightarrow> bool" where
  "returns_promise c = (case c of Plain f \<Rightarrow> fn_does f \<noteq> ThrowsSync | Guarded el f \<Rightarrow> True)"

definition returns_normally :: "user_fn \<Rightarrow> bool" where
  "returns_normally f = (fn_does f \<noteq> ThrowsSync)"

text \<open>
  Pages for the examples. On the first, two functions are registered for \<^verbatim>\<open>destroy\<close>
  and four for \<^verbatim>\<open>pageOut\<close>: the second one's promise rejects, the third is guarded by
  an element inside a viewport 800 high, the fourth by an element below it. On the second
  and third, the first function called throws.
\<close>

definition box :: "real \<Rightarrow> real \<Rightarrow> dom_rect" where
  "box t b =
     \<lparr>rect_top = t, rect_bottom = b, rect_left = 0, rect_right = 400,
      rect_width = 400, rect_height = b - t\<rparr>"

definition leaving_page :: lifecycle where
  "leaving_page =
     \<lparr>destroy = [\<lparr>fn_tag = 7, fn_does = Returns Fulfils\<rparr>, \<lparr>fn_tag = 8, fn_does = Returns Fulfils\<rparr>],
      pageOut = [Plain \<lparr>fn_tag = 1, fn_does = Returns Fulfils\<rparr>,
                 Plain \<lparr>fn_tag = 2, fn_does = Returns Rejects\<rparr>,
                 Guarded 0 \<lparr>fn_tag = 3, fn_does = Returns Fulfils\<rparr>,
                 Guarded 1 \<lparr>fn_tag = 4, fn_does = Returns Fulfils\<rparr>],
      layout = (\<lambda>el. if el = 0 then box 100 300 else box 900 1100),
      resize_height = 800, scroll_pos = 500, events = []\<rparr>"

definition failing_destroy :: lifecycle where
  "failing_destroy =
     \<lparr>destroy = [\<lparr>fn_tag = 7, fn_does = ThrowsSync\<rparr>, \<lparr>fn_tag = 8, fn_does = Returns Fulfils\<rparr>],
      pageOut = [],
      layout = (\<lambda>el. box 100 300),
      resize_height = 800, scroll_pos = 500, events = []\<rparr>"

definition failing_pageOut :: lifecycle where
  "failing_pageOut =
     \<lparr>destroy = [\<lparr>fn_tag = 7, fn_does = Returns Fulfils\<rparr>],
      pageOut = [Plain \<lparr>fn_tag = 1, fn_does = ThrowsSync\<rparr>,
                 Plain \<lparr>fn_tag = 2, fn_does = Returns Fulfils\<rparr>],
      layout = (\<lambda>el. box 100 300),
      resize_height = 800, scroll_pos = 500, events = []\<rparr>"

section \<open>Track: scroll progress between two trigger bounds\<close>

text \<open>
  \<^verbatim>\<open>clientRect\<close> (src/utils/client-rect.ts) and the \<^verbatim>\<open>Track\<close> class with
  \<^verbatim>\<open>computeBounds\<close>. Numbers are real numbers: the model follows the arithmetic of the
  code without the rounding of doubles. \<^verbatim>\<open>Scroll.scroll\<close>, \<^verbatim>\<open>Resize.height\<close> and
  \<^verbatim>\<open>Resize.width\<close> are globals of the code and arguments of the model. The class
  \<^verbatim>\<open>Observe\<close>, which \<^verbatim>\<open>Track\<close> extends and which maintains \<^verbatim>\<open>inView\<close>, is not among
  the sources; \<open>inView\<close> is a field of the state here.
\<close>

record client_rect =
  cr_top :: real
  cr_bottom :: real
  cr_width :: real
  cr_height :: real
  cr_left :: real
  cr_right :: real
  cr_wh :: real
  cr_ww :: real
  cr_offset :: real
  cr_centery :: real
  cr_centerx :: real

definition clientRect :: "dom_rect \<Rightarrow> real \<Rightarrow> real \<Rightarrow> real \<Rightarrow> client_rect" where
  "clientRect bounds scroll rs_height rs_width =
     \<lparr>cr_top = rect_top bounds + scroll,
      cr_bottom = rect_bottom bounds + scroll,
      cr_width = rect_width bounds,
      cr_height = rect_height bounds,
      cr_left = rect_left bounds,
      cr_right = rect_right bounds,
      cr_wh = rs_height,
      cr_ww = rs_width,
      cr_offset = rect_top bounds + scroll,
      cr_centery = rs_height / 2 - rect_height bounds / 2 - rect_top bounds - scroll,
      cr_centerx = - rs_width / 2 + rect_left bounds + rect_width bounds / 2\<rparr>"

datatype trigger = Top | Center | Bottom

record config =
  cfg_bounds :: "real \<times> real"
  cfg_top :: trigger
  cfg_bottom :: trigger
  cfg_callback :: "nat option"

definition DEFAULT_CONFIG :: config where
  "DEFAULT_CONFIG = \<lparr>cfg_bounds = (0, 1), cfg_top = Bottom, cfg_bottom = Top, cfg_callback = None\<rparr>"

definition computeBounds :: "dom_rect \<Rightarrow> config \<Rightarrow> real \<Rightarrow> real \<Rightarrow> real \<Rightarrow> client_rect" where
  "computeBounds el cfg scroll rs_height rs_width =
     (let bounds = clientRect el scroll rs_height rs_width;
          topPos = cr_top bounds;
          bottomPos = cr_bottom bounds;
          wh = cr_wh bounds;
          centerOffset = wh / 2
      in bounds\<lparr>cr_top := topPos -
                  (if cfg_top cfg = Center then centerOffset
                   else if cfg_top cfg = Bottom then wh else 0),
                cr_bottom := bottomPos -
                  (if cfg_bottom cfg = Center then centerOffset
                   else if cfg_bottom cfg = Bottom then wh else 0)\<rparr>)"

text \<open>
  Modelled from the spec: \<^verbatim>\<open>clamp\<close> and \<^verbatim>\<open>map\<close> of \<^verbatim>\<open>@utils/math\<close>, which is not
  among the sources. The spec gives the value as
  \<^verbatim>\<open>clamp01(map(scrollPosition, bounds.top, bounds.bottom, boundsConfig[0], boundsConfig[1]))\<close>:
  \<^verbatim>\<open>map\<close> is the linear map that sends the first interval onto the second, and it is
  undefined (a division by zero) when \<^verbatim>\<open>bounds.top == bounds.bottom\<close>, which is \<open>None\<close>
  here; \<^verbatim>\<open>clamp(min, max, x)\<close>, called as \<^verbatim>\<open>clamp(0, 1, x)\<close>, limits \<open>x\<close> to the
  interval from \<open>min\<close> to \<open>max\<close>.
\<close>

definition map_range :: "real \<Rightarrow> real \<Rightarrow> real \<Rightarrow> real \<Rightarrow> real \<Rightarrow> real option" where
  "map_range x low1 high1 low2 high2 =
     (if high1 = low1 then None
      else Some (low2 + (high2 - low2) * (x - low1) / (high1 - low1)))"

definition clamp :: "real \<Rightarrow> real \<Rightarrow> real \<Rightarrow> real" where
  "clamp lo hi x = min (max x lo) hi"

text \<open>
  The state of a \<^verbatim>\<open>Track\<close>. \<open>value\<close> is \<open>None\<close> when the code's number is not a
  finite one. \<open>delivered\<close> logs the calls of \<^verbatim>\<open>config.callback\<close>; the optional hooks
  \<^verbatim>\<open>this.resize\<close> and \<^verbatim>\<open>this.handleScroll\<close> are undefined in the class itself.
\<close>

record track =
  inView :: bool
  init :: bool
  "value" :: "real option"
  bounds :: client_rect
  config :: config
  delivered :: "(nat \<times> real option) list"

definition handleScroll :: "real \<Rightarrow> track \<Rightarrow> track" where
  "handleScroll scroll t =
     (if \<not> inView t \<or> \<not> init t then t
      else
        (let v = map_option (clamp 0 1)
                   (map_range scroll (cr_top (bounds t)) (cr_bottom (bounds t))
                      (fst (cfg_bounds (config t))) (snd (cfg_bounds (config t))));
             t1 = t\<lparr>value := v\<rparr>
         in case cfg_callback (config t1) of
              None \<Rightarrow> t1
            | Some cb \<Rightarrow> t1\<lparr>delivered := delivered t1 @ [(cb, v)]\<rparr>))"

text \<open>The private \<^verbatim>\<open>#resize\<close>, run by the constructor and on every \<^verbatim>\<open>Resize\<close> notification.\<close>

definition resize_track :: "dom_rect \<Rightarrow> real \<Rightarrow> real \<Rightarrow> real \<Rightarrow> track \<Rightarrow> track" where
  "resize_track el scroll rs_height rs_width t =
     handleScroll scroll (t\<lparr>bounds := computeBounds el (config t) scroll rs_height rs_width\<rparr>)"

text \<open>
  Tracks for the examples, in view and initialised, on an element that spans 100 to 300 of
  the document in a viewport 800 high: one with the default configuration, whose bounds are
  still those of an earlier layout, and one with the output range from 0.5 to 1 and both
  triggers at the top, with the bounds computed at scroll position 0.
\<close>

definition tracking :: "config \<Rightarrow> client_rect \<Rightarrow> track" where
  "tracking cfg b =
     \<lparr>inView = True, init = True, value = Some 0, bounds = b, config = cfg, delivered = []\<rparr>"

definition last_track :: track where
  "last_track = tracking DEFAULT_CONFIG (computeBounds (box 0 50) DEFAULT_CONFIG 0 600 900)"

definition scale_config :: config where
  "scale_config = \<lparr>cfg_bounds = (1 / 2, 1), cfg_top = Top, cfg_bottom = Top, cfg_callback = Some 0\<rparr>"

definition scale_track :: track where
  "scale_track = tracking scale_config (computeBounds (box 100 300) scale_config 0 800 1200)"

section \<open>createCycles: binding modules to elements\<close>

text \<open>
  \<^verbatim>\<open>createCycles\<close> maps over the elements that the selector
  \<^verbatim>\<open>[data-<dataAttribute>]\<close> matches, in document order, and filters the \<^verbatim>\<open>null\<close>s
  out of the results. An element is its identity, the attribute names of that form it
  carries, its \<^verbatim>\<open>dataset\<close> and its \<^verbatim>\<open>_moduleInitialized\<close> property, which is absent
  (\<open>None\<close>) until it is set and after it is deleted. The selector tests the attribute; the
  code then reads \<^verbatim>\<open>dataset[dataAttribute]\<close>, which is \<^verbatim>\<open>undefined\<close> when the name
  is not the dataset key of that attribute (a name with a hyphen or a capital), so the two
  are separate fields. \<^verbatim>\<open>modules\<close> is the table \<^verbatim>\<open>import.meta.glob\<close> builds, from
  paths to modules; of a module only its default export matters, a function or something
  else.

  A binding function is opaque and stateful: whether a call of it returns or throws depends
  on the element and on the state of the page and of the module at the time, of which the
  model knows nothing. That state is the argument \<open>w\<close> of a call of \<^verbatim>\<open>createCycles\<close>;
  a later call runs in a later state, in which a binding that threw may return. What the
  bindings of one scan do to that state, and so to each other, is not modelled.
\<close>

datatype jsval = JNull | JUndefined | JObject nat

datatype 'a returned = Value 'a | Thrown

record element =
  el_id :: nat
  has_data :: "string \<Rightarrow> bool"
  dataset :: "string \<Rightarrow> string option"
  moduleInitialized :: "bool option"

datatype 'w default_export = DefaultFn "'w \<Rightarrow> element \<Rightarrow> jsval returned" | DefaultOther

type_synonym 'w modules = "string \<Rightarrow> 'w default_export option"

datatype cycle_event = Invoked nat | Warned nat

text \<open>\<^verbatim>\<open>if (htmlElement._moduleInitialized)\<close>: an absent property and \<^verbatim>\<open>false\<close> are falsy.\<close>

definition initialized :: "element \<Rightarrow> bool" where
  "initialized e = (moduleInitialized e = Some True)"

text \<open>The template string with \<^verbatim>\<open>undefined\<close> for a missing attribute value.\<close>

definition module_path :: "string option \<Rightarrow> string \<Rightarrow> string" where
  "module_path attributeValue ext =
     ''./../'' @ (case attributeValue of None \<Rightarrow> ''undefined'' | Some v \<Rightarrow> v) @ ext"

text \<open>
  The function mapped over the elements: the item it returns, the element afterwards, and
  what it invoked and warned about.
\<close>

definition cycle_element ::
  "'w modules \<Rightarrow> string \<Rightarrow> 'w \<Rightarrow> element \<Rightarrow> jsval \<times> element \<times> cycle_event list" where
  "cycle_element mods dataAttribute w htmlElement =
     (let attributeValue = dataset htmlElement dataAttribute
      in if initialized htmlElement then (JNull, htmlElement, [])
         else
           (let modulePath =
                  (if mods (module_path attributeValue ''.ts'') \<noteq> None
                   then module_path attributeValue ''.ts''
                   else module_path attributeValue ''.js'')
            in case mods modulePath of
                 Some (DefaultFn moduleFn) \<Rightarrow>
                   (let marked = htmlElement\<lparr>moduleInitialized := Some True\<rparr>
                    in case moduleFn w marked of
                         Value v \<Rightarrow> (v, marked, [Invoked (el_id htmlElement)])
                       | Thrown \<Rightarrow>
                           (JNull, marked\<lparr>moduleInitialized := None\<rparr>,
                            [Invoked (el_id htmlElement), Warned (el_id htmlElement)]))
               | Some DefaultOther \<Rightarrow> (JNull, htmlElement, [Warned (el_id htmlElement)])
               | None \<Rightarrow> (JNull, htmlElement, [Warned (el_id htmlElement)])))"

text \<open>\<^verbatim>\<open>document.querySelectorAll(`[data-${dataAttribute}]`)\<close> selects these elements.\<close>

definition selected :: "string \<Rightarrow> element \<Rightarrow> bool" where
  "selected dataAttribute e = has_data e dataAttribute"

text \<open>
  The document is the list of its elements in document order. The result: the array
  returned, the document afterwards, and the log.
\<close>

record cycles =
  returned :: "jsval list"
  document :: "element list"
  log :: "cycle_event list"

fun scan ::
  "'w modules \<Rightarrow> string \<Rightarrow> 'w \<Rightarrow> element list \<Rightarrow> jsval list \<times> element list \<times> cycle_event list" where
  "scan mods dataAttribute w [] = ([], [], [])"
| "scan mods dataAttribute w (e # es) =
     (if selected dataAttribute e then
        (case cycle_element mods dataAttribute w e of
           (item, e', evs) \<Rightarrow>
             (case scan mods dataAttribute w es of
                (items, es', evs') \<Rightarrow> (item # items, e' # es', evs @ evs')))
      else
        (case scan mods dataAttribute w es of
           (items, es', evs') \<Rightarrow> (items, e # es', evs')))"

definition createCycles :: "'w modules \<Rightarrow> string \<Rightarrow> 'w \<Rightarrow> element list \<Rightarrow> cycles" where
  "createCycles mods dataAttribute w doc =
     (case scan mods dataAttribute w doc of
        (items, doc', evs) \<Rightarrow>
          \<lparr>returned = filter (\<lambda>item. item \<noteq> JNull) items, document = doc', log = evs\<rparr>)"

text \<open>The binding invocations of a log, and the binding an element resolves to.\<close>

fun invocations :: "cycle_event list \<Rightarrow> nat list" where
  "invocations [] = []"
| "invocations (Invoked i # evs) = i # invocations evs"
| "invocations (Warned i # evs) = invocations evs"

definition binding ::
  "'w modules \<Rightarrow> string \<Rightarrow> element \<Rightarrow> ('w \<Rightarrow> element \<Rightarrow> jsval returned) option" where
  "binding mods dataAttribute e =
     (let attributeValue = dataset e dataAttribute;
          modulePath =
            (if mods (module_path attributeValue ''.ts'') \<noteq> None
             then module_path attributeValue ''.ts''
             else module_path attributeValue ''.js'')
      in case mods modulePath of
           Some (DefaultFn moduleFn) \<Rightarrow> Some moduleFn
         | Some DefaultOther \<Rightarrow> None
         | None \<Rightarrow> None)"

text \<open>
  The binding of the element, invoked in the state \<open>w\<close> as \<^verbatim>\<open>createCycles\<close> invokes it,
  throws, or returns.
\<close>

definition binding_throws :: "'w modules \<Rightarrow> string \<Rightarrow> 'w \<Rightarrow> element \<Rightarrow> bool" where
  "binding_throws mods dataAttribute w e =
     (case binding mods dataAttribute e of
        None \<Rightarrow> False
      | Some moduleFn \<Rightarrow> moduleFn w (e\<lparr>moduleInitialized := Some True\<rparr>) = Thrown)"

definition binding_returns :: "'w modules \<Rightarrow> string \<Rightarrow> 'w \<Rightarrow> element \<Rightarrow> bool" where
  "binding_returns mods dataAttribute w e =
     (case binding mods dataAttribute e of
        None \<Rightarrow> False
      | Some moduleFn \<Rightarrow> moduleFn w (e\<lparr>moduleInitialized := Some True\<rparr>) \<noteq> Thrown)"

text \<open>
  Module tables and elements for the examples. The states are numbered: in the first
  table the only module throws in every state; in the second one module returns and one
  throws; in the third the module throws in state 0 and returns from then on.
\<close>

definition throwing_modules :: "nat modules" where
  "throwing_modules =
     (\<lambda>p. if p = ''./../cycle.ts'' then Some (DefaultFn (\<lambda>w e. Thrown)) else None)"

definition working_modules :: "nat modules" where
  "working_modules =
     (\<lambda>p. if p = ''./../cycle.ts'' then Some (DefaultFn (\<lambda>w e. Value JUndefined))
          else if p = ''./../split.ts'' then Some (DefaultFn (\<lambda>w e. Thrown))
          else None)"

definition recovering_modules :: "nat modules" where
  "recovering_modules =
     (\<lambda>p. if p = ''./../cycle.ts''
          then Some (DefaultFn (\<lambda>w e. if w = 0 then Thrown else Value JUndefined))
          else None)"

definition module_element :: "nat \<Rightarrow> string \<Rightarrow> element" where
  "module_element i name =
     \<lparr>el_id = i, has_data = (\<lambda>k. k = ''module''),
      dataset = (\<lambda>k. if k = ''module'' then Some name else None),
      moduleInitialized = None\<rparr>"

section \<open>The registry: order of notification, throwing and unsubscribing callbacks\<close>

lemma place_Nil: "place e [] = [e]"
  by (simp add: place_def)

lemma place_Cons:
  "place e (x # xs) = (if priority x > priority e then e # x # xs else x # place e xs)"
  by (simp add: place_def splice0_def split: option.splits)

lemma current_add: "current (add f p i s) = place \<lparr>fn = f, priority = p, ident = i\<rparr> (current s)"
  by (simp add: add_def current_def place_def Let_def split: option.splits)

lemma set_place: "set (place e xs) = insert e (set xs)"
  by (induction xs) (auto simp: place_Nil place_Cons)

lemma sorted_place:
  "sorted (map priority xs) \<Longrightarrow> sorted (map priority (place e xs))"
  by (induction xs) (auto simp: place_Nil place_Cons set_place)

lemma filter_place:
  "sorted (map priority xs) \<Longrightarrow>
   filter (\<lambda>y. priority y = q) (place e xs) =
   filter (\<lambda>y. priority y = q) xs @ (if priority e = q then [e] else [])"
proof (induction xs)
  case Nil
  then show ?case by (simp add: place_Nil)
next
  case (Cons x xs)
  show ?case
  proof (cases "priority x > priority e")
    case True
    with Cons.prems have "\<forall>y\<in>set (x # xs). priority y \<noteq> priority e"
      by auto
    then have "filter (\<lambda>y. priority y = priority e) (x # xs) = []"
      by (simp add: filter_empty_conv)
    with True show ?thesis
      by (auto simp: place_Cons)
  next
    case False
    with Cons show ?thesis
      by (simp add: place_Cons)
  qed
qed

lemma remove_store: "a < next_addr s \<Longrightarrow> store (remove i s) a = store s a"
  by (simp add: remove_def)

lemma remove_next: "next_addr (remove i s) = Suc (next_addr s)"
  by (simp add: remove_def)

lemma remove_calls: "calls (remove i s) = calls s"
  by (simp add: remove_def)

lemma remove_current: "current (remove i s) = filter (\<lambda>e. ident e \<noteq> i) (current s)"
  by (simp add: remove_def current_def)

lemma remove_wf: "wf (remove i s)"
  by (simp add: remove_def wf_def)

lemma run_body_no_add:
  "list_all no_add cs \<Longrightarrow> a < next_addr s \<Longrightarrow> run_body cs s = (b, s') \<Longrightarrow>
   store s' a = store s a \<and> next_addr s \<le> next_addr s' \<and> calls s' = calls s
   \<and> (b \<longleftrightarrow> CThrow \<notin> set cs)"
proof (induction cs s rule: run_body.induct)
  case (1 s)
  then show ?case by simp
next
  case (2 f p i cs s)
  then show ?case by simp
next
  case (3 i cs s)
  from 3 have "store s' a = store (remove i s) a \<and> next_addr (remove i s) \<le> next_addr s'
     \<and> calls s' = calls (remove i s) \<and> (b \<longleftrightarrow> CThrow \<notin> set cs)"
    by (simp add: remove_next)
  with 3(3) show ?case
    by (simp add: remove_store remove_next remove_calls)
next
  case (4 cs s)
  then show ?case by auto
qed

lemma run_body_only_removes:
  "list_all is_remove cs \<Longrightarrow> run_body cs s = (b, s') \<Longrightarrow>
   current s' = filter (\<lambda>e. ident e \<notin> set (removed_ids cs)) (current s)"
proof (induction cs s rule: run_body.induct)
  case (3 i cs s)
  then have "current s' = filter (\<lambda>e. ident e \<notin> set (removed_ids cs)) (current (remove i s))"
    by simp
  then show ?case
    by (simp add: remove_current conj_commute)
qed simp_all

lemma is_remove_no_add: "is_remove c \<Longrightarrow> no_add c"
  by (cases c) simp_all

lemma is_remove_no_throw: "list_all is_remove cs \<Longrightarrow> CThrow \<notin> set cs"
  by (induction cs) auto

lemma only_removes_adds_nothing: "only_removes e \<Longrightarrow> adds_nothing e"
  by (auto simp: only_removes_def adds_nothing_def list_all_iff is_remove_no_add)

lemma only_removes_not_throws: "only_removes e \<Longrightarrow> \<not> throws e"
  by (simp add: only_removes_def throws_def is_remove_no_throw)

lemma invoke_adds_nothing:
  assumes "adds_nothing e" "a < next_addr s" "invoke e d s = (c, s')"
  shows "store s' a = store s a \<and> a < next_addr s' \<and> calls s' = calls s @ [called d e]
     \<and> c = (if throws e then Threw (tag (fn e)) else Returned)"
proof -
  let ?s0 = "s\<lparr>calls := calls s @ [(tag (fn e), d)]\<rparr>"
  obtain b s1 where r: "run_body (body (fn e)) ?s0 = (b, s1)"
    by (cases "run_body (body (fn e)) ?s0")
  from assms(1) have "list_all no_add (body (fn e))"
    by (simp add: adds_nothing_def)
  from run_body_no_add [OF this _ r, of a] assms(2)
  have "store s1 a = store s a \<and> next_addr s \<le> next_addr s1 \<and> calls s1 = calls s @ [(tag (fn e), d)]
     \<and> (b \<longleftrightarrow> CThrow \<notin> set (body (fn e)))"
    by simp
  with assms(2,3) r show ?thesis
    by (cases b) (auto simp: invoke_def called_def throws_def)
qed

lemma forEach_from_adds_nothing:
  assumes "a < next_addr s" "k + n = length (store s a)"
    "list_all adds_nothing (drop k (store s a))"
    "forEach_from a k n d s = (c, s')"
  shows "store s' a = store s a \<and> a < next_addr s' \<and>
     (case findIndex throws (drop k (store s a)) of
        None \<Rightarrow> c = Returned \<and> calls s' = calls s @ map (called d) (drop k (store s a))
      | Some j \<Rightarrow> c = Threw (tag (fn (store s a ! (k + j)))) \<and>
          calls s' = calls s @ map (called d) (take (Suc j) (drop k (store s a))))"
  using assms
proof (induction n arbitrary: k s)
  case 0
  then show ?case by simp
next
  case (Suc n)
  let ?xs = "store s a"
  from Suc.prems have k: "k < length ?xs" by simp
  then have dr: "drop k ?xs = ?xs ! k # drop (Suc k) ?xs"
    by (simp add: Cons_nth_drop_Suc)
  obtain c1 s1 where inv: "invoke (?xs ! k) d s = (c1, s1)"
    by (cases "invoke (?xs ! k) d s")
  from Suc.prems(3) dr have an: "adds_nothing (?xs ! k)" and rest: "list_all adds_nothing (drop (Suc k) ?xs)"
    by simp_all
  from invoke_adds_nothing [OF an Suc.prems(1) inv]
  have s1: "store s1 a = ?xs" "a < next_addr s1" "calls s1 = calls s @ [called d (?xs ! k)]"
    "c1 = (if throws (?xs ! k) then Threw (tag (fn (?xs ! k))) else Returned)"
    by simp_all
  show ?case
  proof (cases "throws (?xs ! k)")
    case True
    with Suc.prems(4) k inv s1 have "c = Threw (tag (fn (?xs ! k)))" "s' = s1"
      by simp_all
    with True s1 dr show ?thesis
      by simp
  next
    case False
    with Suc.prems(4) k inv s1 have run: "forEach_from a (Suc k) n d s1 = (c, s')"
      by simp
    from Suc.prems(2) s1 have len: "Suc k + n = length (store s1 a)"
      by simp
    from rest s1 have rest1: "list_all adds_nothing (drop (Suc k) (store s1 a))"
      by simp
    note ih = Suc.IH [OF s1(2) len rest1 run]
    show ?thesis
    proof (cases "findIndex throws (drop (Suc k) ?xs)")
      case None
      with ih s1 False dr show ?thesis
        by simp
    next
      case (Some j)
      with ih s1 False dr show ?thesis
        by simp
    qed
  qed
qed

lemma invoke_only_removes:
  assumes "only_removes e" "invoke e d s = (c, s')"
  shows "current s' = filter (\<lambda>x. ident x \<notin> set (removed_ids (body (fn e)))) (current s)"
proof -
  let ?s0 = "s\<lparr>calls := calls s @ [(tag (fn e), d)]\<rparr>"
  obtain b s1 where r: "run_body (body (fn e)) ?s0 = (b, s1)"
    by (cases "run_body (body (fn e)) ?s0")
  from assms(1) have "list_all is_remove (body (fn e))"
    by (simp add: only_removes_def)
  from run_body_only_removes [OF this r]
  have "current s1 = filter (\<lambda>x. ident x \<notin> set (removed_ids (body (fn e)))) (current s)"
    by (simp add: current_def)
  with assms(2) r show ?thesis
    by (cases b) (auto simp: invoke_def)
qed

lemma forEach_from_only_removes:
  assumes "a < next_addr s" "k + n = length (store s a)"
    "list_all only_removes (drop k (store s a))"
    "forEach_from a k n d s = (c, s')"
  shows "current s' = filter (\<lambda>x. ident x \<notin> set (removed_by (drop k (store s a)))) (current s)"
  using assms
proof (induction n arbitrary: k s)
  case 0
  then show ?case by (simp add: removed_by_def)
next
  case (Suc n)
  let ?xs = "store s a"
  from Suc.prems have k: "k < length ?xs" by simp
  then have dr: "drop k ?xs = ?xs ! k # drop (Suc k) ?xs"
    by (simp add: Cons_nth_drop_Suc)
  obtain c1 s1 where inv: "invoke (?xs ! k) d s = (c1, s1)"
    by (cases "invoke (?xs ! k) d s")
  from Suc.prems(3) dr have an: "only_removes (?xs ! k)" and rest: "list_all only_removes (drop (Suc k) ?xs)"
    by simp_all
  from invoke_adds_nothing [OF only_removes_adds_nothing [OF an] Suc.prems(1) inv]
    only_removes_not_throws [OF an]
  have s1: "store s1 a = ?xs" "a < next_addr s1" "c1 = Returned"
    by simp_all
  from Suc.prems(4) k inv s1 have run: "forEach_from a (Suc k) n d s1 = (c, s')"
    by simp
  from Suc.prems(2) s1 have len: "Suc k + n = length (store s1 a)"
    by simp
  from rest s1 have rest1: "list_all only_removes (drop (Suc k) (store s1 a))"
    by simp
  from Suc.IH [OF s1(2) len rest1 run] s1
  have "current s' = filter (\<lambda>x. ident x \<notin> set (removed_by (drop (Suc k) ?xs))) (current s1)"
    by simp
  with invoke_only_removes [OF an inv] dr show ?case
    by (simp add: removed_by_def conj_commute)
qed

lemma notify_adds_nothing:
  assumes "wf s" "list_all adds_nothing (current s)" "notify d s = (c, s')"
  shows "case findIndex throws (current s) of
        None \<Rightarrow> c = Returned \<and> calls s' = calls s @ map (called d) (current s)
      | Some j \<Rightarrow> c = Threw (tag (fn (current s ! j))) \<and>
          calls s' = calls s @ map (called d) (take (Suc j) (current s))"
proof (cases "current s = []")
  case True
  with assms(3) show ?thesis
    by (simp add: notify_def current_def)
next
  case False
  with assms(3) have "forEach_from (subscribers s) 0 (0 + length (current s)) d s = (c, s')"
    by (simp add: notify_def current_def Let_def)
  from forEach_from_adds_nothing [of "subscribers s" s 0 "length (current s)" d c s'] this assms(1,2)
  show ?thesis
    by (auto simp: current_def wf_def split: option.splits)
qed

lemma notify_only_removes:
  assumes "wf s" "list_all only_removes (current s)" "notify d s = (c, s')"
  shows "current s' = filter (\<lambda>x. ident x \<notin> set (removed_by (current s))) (current s)"
proof (cases "current s = []")
  case True
  with assms(3) show ?thesis
    by (simp add: notify_def current_def)
next
  case False
  with assms(3) have "forEach_from (subscribers s) 0 (0 + length (current s)) d s = (c, s')"
    by (simp add: notify_def current_def Let_def)
  from forEach_from_only_removes [of "subscribers s" s 0 "length (current s)" d c s'] this assms(1,2)
  show ?thesis
    by (simp add: current_def wf_def)
qed

lemma add_wf: "wf (add f p i s) = wf s"
  by (simp add: add_def wf_def Let_def split: option.splits)

lemma run_body_wf: "wf s \<Longrightarrow> wf (snd (run_body cs s))"
  by (induction cs s rule: run_body.induct) (simp_all add: add_wf remove_wf)

lemma invoke_wf: "wf s \<Longrightarrow> wf (snd (invoke e d s))"
proof -
  assume "wf s"
  then have "wf (s\<lparr>calls := calls s @ [(tag (fn e), d)]\<rparr>)"
    by (simp add: wf_def)
  from run_body_wf [OF this, of "body (fn e)"] show ?thesis
    by (auto simp: invoke_def split: prod.splits bool.splits)
qed

lemma forEach_from_wf: "wf s \<Longrightarrow> wf (snd (forEach_from a k n d s))"
proof (induction n arbitrary: k s)
  case 0
  then show ?case by simp
next
  case (Suc n)
  show ?case
  proof (cases "k < length (store s a)")
    case True
    obtain c1 s1 where inv: "invoke (store s a ! k) d s = (c1, s1)"
      by (cases "invoke (store s a ! k) d s")
    with invoke_wf [OF Suc.prems, of "store s a ! k" d] have "wf s1"
      by simp
    with Suc.IH [of s1 "Suc k"] inv True show ?thesis
      by (cases c1) simp_all
  next
    case False
    with Suc show ?thesis by simp
  qed
qed

lemma notify_wf: "wf s \<Longrightarrow> wf (snd (notify d s))"
  by (simp add: notify_def Let_def forEach_from_wf)




lemma add_all_snoc: "add_all (xs @ [(f, p, i)]) s = add f p i (add_all xs s)"
  by (simp add: add_all_def)

lemma add_all_wf: "wf s \<Longrightarrow> wf (add_all xs s)"
  by (induction xs rule: rev_induct) (auto simp: add_all_snoc add_wf add_all_def)

lemma add_all_sorted:
  "sorted (map priority (current (add_all xs (new_subscribable :: 'd subscribable))))"
proof (induction xs rule: rev_induct)
  case Nil
  then show ?case by (simp add: add_all_def new_subscribable_def current_def)
next
  case (snoc x xs)
  obtain f p i where "x = (f, p, i)" by (cases x)
  with snoc show ?case
    by (simp add: add_all_snoc current_add sorted_place)
qed

lemma add_all_stable:
  "filter (\<lambda>e. priority e = q) (current (add_all xs (new_subscribable :: 'd subscribable))) =
   filter (\<lambda>e. priority e = q) (map entry_of xs)"
proof (induction xs rule: rev_induct)
  case Nil
  then show ?case by (simp add: add_all_def new_subscribable_def current_def)
next
  case (snoc x xs)
  obtain f p i where "x = (f, p, i)" by (cases x)
  with snoc add_all_sorted [of xs, where ?'d = 'd] show ?case
    by (simp add: add_all_snoc current_add filter_place entry_of_def)
qed

lemma add_all_set:
  "set (current (add_all xs (new_subscribable :: 'd subscribable))) = set (map entry_of xs)"
proof (induction xs rule: rev_induct)
  case Nil
  then show ?case by (simp add: add_all_def new_subscribable_def current_def)
next
  case (snoc x xs)
  obtain f p i where "x = (f, p, i)" by (cases x)
  with snoc show ?case
    by (simp add: add_all_snoc current_add set_place entry_of_def)
qed

lemma new_wf: "wf new_subscribable"
  by (simp add: wf_def new_subscribable_def)

lemma findIndex_le: "findIndex P xs = Some j \<Longrightarrow> j < length xs"
  by (induction xs arbitrary: j) (auto split: if_splits)

text \<open>
  C2, as amended. After any sequence of \<^verbatim>\<open>add\<close> calls on a new instance, the array of
  subscribers is in non-decreasing order of priority, and the subscribers of one priority
  stand in the order in which they were added. When no subscriber function calls
  \<^verbatim>\<open>add\<close> while it runs, a \<^verbatim>\<open>notify\<close> that follows invokes the subscribers in the
  order of that array: all of them, and it returns, when none throws; those up to and
  including the first one that throws, whose exception it ends with, otherwise. The
  subscription list of the \<^verbatim>\<open>Scroll\<close> instance is a copy of the same code.
\<close>

theorem notify_priority_order:
  fixes d :: 'd
  assumes "list_all (\<lambda>x. adds_nothing (entry_of x)) adds"
  shows "let s = add_all adds (new_subscribable :: 'd subscribable); arr = current s in
     sorted (map priority arr) \<and>
     (\<forall>p. filter (\<lambda>e. priority e = p) arr = filter (\<lambda>e. priority e = p) (map entry_of adds)) \<and>
     (case findIndex throws arr of
        None \<Rightarrow>
          fst (notify d s) = Returned \<and> calls (snd (notify d s)) = map (called d) arr
      | Some j \<Rightarrow>
          fst (notify d s) = Threw (tag (fn (arr ! j))) \<and>
          calls (snd (notify d s)) = map (called d) (take (Suc j) arr))"
proof -
  let ?s = "add_all adds (new_subscribable :: 'd subscribable)"
  let ?arr = "current ?s"
  have wf: "wf ?s"
    by (simp add: add_all_wf new_wf)
  have calls0: "calls ?s = []"
    by (induction adds rule: rev_induct)
      (auto simp: add_all_def new_subscribable_def add_def Let_def split: option.splits)
  from assms have quiet: "list_all adds_nothing ?arr"
    by (simp add: list_all_iff add_all_set)
  obtain c s' where n: "notify d ?s = (c, s')"
    by (cases "notify d ?s")
  note run = notify_adds_nothing [OF wf quiet n]
  have "case findIndex throws ?arr of
        None \<Rightarrow> c = Returned \<and> calls s' = map (called d) ?arr
      | Some j \<Rightarrow> c = Threw (tag (fn (?arr ! j))) \<and> calls s' = map (called d) (take (Suc j) ?arr)"
  proof (cases "findIndex throws ?arr")
    case None
    with run calls0 show ?thesis by simp
  next
    case (Some j)
    with run calls0 show ?thesis by simp
  qed
  with n show ?thesis
    by (auto simp: Let_def add_all_sorted add_all_stable split: option.splits)
qed






text \<open>
  C10, as amended. In a notification whose subscriber functions do nothing to the registry
  but unsubscribe (none adds a subscriber, none throws), a subscriber that another one
  removes is still invoked: every entry of the array \<^verbatim>\<open>notify\<close> started on is invoked
  once, in order. The removal holds from the next \<^verbatim>\<open>notify\<close> on: the field then
  refers to the filtered copy, which that notification invokes, and the removed subscriber
  is not in it.
\<close>

theorem remove_during_notify:
  assumes "wf s" "list_all only_removes (current s)"
    "k < length (current s)" "j < length (current s)"
    "CRemove (ident (current s ! j)) \<in> set (body (fn (current s ! k)))"
  shows "fst (notify d s) = Returned \<and>
     calls (snd (notify d s)) = calls s @ map (called d) (current s) \<and>
     (let s1 = snd (notify d s) in
        current s1 = filter (\<lambda>x. ident x \<notin> set (removed_by (current s))) (current s) \<and>
        (\<forall>x \<in> set (current s1). ident x \<noteq> ident (current s ! j)) \<and>
        fst (notify d' s1) = Returned \<and>
        calls (snd (notify d' s1)) = calls s1 @ map (called d') (current s1))"
proof -
  obtain c s1 where n: "notify d s = (c, s1)"
    by (cases "notify d s")
  from assms(2) have quiet: "list_all adds_nothing (current s)"
    and calm: "\<forall>x \<in> set (current s). \<not> throws x"
    by (auto simp: list_all_iff only_removes_adds_nothing only_removes_not_throws)
  have none: "findIndex P xs = None" if "\<forall>x \<in> set xs. \<not> P x" for P :: "subscriber \<Rightarrow> bool" and xs
    using that by (induction xs) auto
  from notify_adds_nothing [OF assms(1) quiet n] none [OF calm]
  have first: "c = Returned" "calls s1 = calls s @ map (called d) (current s)"
    by simp_all
  note cur = notify_only_removes [OF assms(1,2) n]
  have rid: "i \<in> set (removed_ids cs)" if "CRemove i \<in> set cs" for i cs
    using that by (induction cs rule: removed_ids.induct) auto
  from assms(3) have "current s ! k \<in> set (current s)"
    by simp
  with rid [OF assms(5)] have gone: "ident (current s ! j) \<in> set (removed_by (current s))"
    by (auto simp: removed_by_def)
  from notify_wf [OF assms(1), of d] n have wf1: "wf s1"
    by simp
  from cur assms(2) have only1: "list_all only_removes (current s1)"
    by (simp add: list_all_iff)
  then have quiet1: "list_all adds_nothing (current s1)"
    and calm1: "\<forall>x \<in> set (current s1). \<not> throws x"
    by (auto simp: list_all_iff only_removes_adds_nothing only_removes_not_throws)
  obtain c2 s2 where n2: "notify d' s1 = (c2, s2)"
    by (cases "notify d' s1")
  from notify_adds_nothing [OF wf1 quiet1 n2] none [OF calm1]
  have second: "c2 = Returned" "calls s2 = calls s1 @ map (called d') (current s1)"
    by simp_all
  from cur gone have "\<forall>x \<in> set (current s1). ident x \<noteq> ident (current s ! j)"
    by auto
  with n n2 first second cur show ?thesis
    by (simp add: Let_def)
qed

theorem notify_priority_order_witness:
  "list_all (\<lambda>x. adds_nothing (entry_of x)) four_adds \<and>
   sorted (map priority (current (registry four_adds))) \<and>
   map ident (current (registry four_adds)) = [11, 13, 10, 12] \<and>
   findIndex throws (current (registry four_adds)) = None \<and>
   fst (notify 0 (registry four_adds)) = Returned \<and>
   calls (snd (notify 0 (registry four_adds))) = [(2, 0), (4, 0), (1, 0), (3, 0)]"
proof -
  have h: "list_all (\<lambda>x. adds_nothing (entry_of x)) four_adds"
    by code_simp
  have quiet: "findIndex throws (current (registry four_adds)) = None"
    by code_simp
  have e: "map ident (current (registry four_adds)) = [11, 13, 10, 12]"
    "map (called (0::nat)) (current (registry four_adds)) = [(2, 0), (4, 0), (1, 0), (3, 0)]"
    by code_simp+
  from notify_priority_order [OF h, of "0::nat"] quiet
  have s: "sorted (map priority (current (registry four_adds)))"
    and r: "fst (notify 0 (registry four_adds)) = Returned"
    and c: "calls (snd (notify 0 (registry four_adds))) = map (called 0) (current (registry four_adds))"
    by (simp_all add: Let_def registry_def)
  from h s e quiet r c show ?thesis
    by simp
qed

text \<open>
  C2 as stated fails when a subscriber function subscribes during the notification:
  \<^verbatim>\<open>add\<close> splices into the array under iteration. Here the first subscriber, of
  priority 0, adds functions of priorities \<open>-2\<close> and \<open>-1\<close> in front of itself;
  \<^verbatim>\<open>forEach\<close> then finds the one of priority \<open>-1\<close> at index 1 and invokes it after
  the one of priority 0, and the notification returns without having invoked the second
  subscriber.
\<close>

theorem notify_priority_order_counterexample:
  "map (\<lambda>e. (tag (fn e), priority e)) (current (registry reordering_adds)) = [(1, 0), (2, 1)] \<and>
   fst (notify 0 (registry reordering_adds)) = Returned \<and>
   calls (snd (notify 0 (registry reordering_adds))) = [(1, 0), (4, 0)] \<and>
   map (\<lambda>e. (tag (fn e), priority e)) (current (snd (notify 0 (registry reordering_adds))))
     = [(3, - 2), (4, - 1), (1, 0), (2, 1)]"
  by code_simp


theorem remove_during_notify_witness:
  "wf (registry removing_adds) \<and> list_all only_removes (current (registry removing_adds)) \<and>
   map ident (current (registry removing_adds)) = [10, 11] \<and>
   CRemove 11 \<in> set (body (fn (current (registry removing_adds) ! 0))) \<and>
   fst (notify 0 (registry removing_adds)) = Returned \<and>
   calls (snd (notify 0 (registry removing_adds))) = [(1, 0), (2, 0)] \<and>
   map ident (current (snd (notify 0 (registry removing_adds)))) = [10] \<and>
   calls (snd (notify 5 (snd (notify 0 (registry removing_adds))))) = [(1, 0), (2, 0), (1, 5)]"
proof -
  let ?s = "registry removing_adds"
  have h: "wf ?s" "list_all only_removes (current ?s)" "0 < length (current ?s)"
    "1 < length (current ?s)"
    "CRemove (ident (current ?s ! 1)) \<in> set (body (fn (current ?s ! 0)))"
    by code_simp+
  have ids: "map ident (current ?s) = [10, 11]" "CRemove 11 \<in> set (body (fn (current ?s ! 0)))"
    by code_simp+
  have c: "calls ?s @ map (called (0::nat)) (current ?s) = [(1, 0), (2, 0)]"
    "filter (\<lambda>x. ident x \<notin> set (removed_by (current ?s))) (current ?s)
       = [entry_of (Callback 1 [CRemove 11], 0, 10)]"
    by code_simp+
  note t = remove_during_notify [OF h, of "0::nat" "5::nat"]
  from t c have one: "fst (notify 0 ?s) = Returned" "calls (snd (notify 0 ?s)) = [(1, 0), (2, 0)]"
    "current (snd (notify 0 ?s)) = [entry_of (Callback 1 [CRemove 11], 0, 10)]"
    by (simp_all add: Let_def)
  from t one have two: "calls (snd (notify 5 (snd (notify 0 ?s)))) = [(1, 0), (2, 0), (1, 5)]"
    by (simp add: Let_def called_def entry_of_def)
  from one(3) have "map ident (current (snd (notify 0 ?s))) = [10]"
    by (simp add: entry_of_def)
  with h(1,2) ids one(1,2) two show ?thesis
    by blast
qed

text \<open>
  C10 as stated fails when the function that unsubscribes also subscribes: \<^verbatim>\<open>add\<close>
  splices into the array under iteration. Here the first subscriber adds a function in
  front of itself and removes the second subscriber; \<^verbatim>\<open>forEach\<close> then finds the first
  subscriber again at index 1, and the notification returns without having invoked the
  second.
\<close>

theorem remove_during_notify_counterexample:
  "map ident (current (registry swapping_adds)) = [10, 11] \<and>
   CRemove 11 \<in> set (body (fn (current (registry swapping_adds) ! 0))) \<and>
   fst (notify 0 (registry swapping_adds)) = Returned \<and>
   calls (snd (notify 0 (registry swapping_adds))) = [(1, 0), (1, 0)] \<and>
   map ident (current (snd (notify 0 (registry swapping_adds)))) = [12, 12, 10]"
  by code_simp

section \<open>Resize: one notification per burst\<close>

lemma pending_iff:
  "pending t0 s \<longleftrightarrow>
     (\<exists>i. timers s = [(i, t0 + 100)] \<and> timeoutId s = Some i \<and> i \<noteq> 0 \<and> i < next_id s \<and> now s = t0)"
  by (auto simp: pending_def split: list.splits prod.splits)

lemma advance_idle:
  assumes "\<forall>tm \<in> set (timers s). t < snd tm"
  shows "advance t s = s\<lparr>now := max (now s) t\<rparr>"
proof -
  from assms have "filter (\<lambda>tm. snd tm \<le> t) (timers s) = []"
    by (auto simp: filter_empty_conv)
  then show ?thesis
    by (simp add: advance_def)
qed

lemma on_resize_pending:
  assumes "pending t0 s" "t0 \<le> t" "t < t0 + 100"
  shows "pending t (on_resize s (t, w, h)) \<and>
     notified (on_resize s (t, w, h)) = notified s \<and>
     width (on_resize s (t, w, h)) = width s \<and> height (on_resize s (t, w, h)) = height s \<and>
     innerWidth (on_resize s (t, w, h)) = w \<and> innerHeight (on_resize s (t, w, h)) = h"
proof -
  from assms(1) obtain i where i: "timers s = [(i, t0 + 100)]" "timeoutId s = Some i" "i \<noteq> 0"
    "i < next_id s" "now s = t0"
    by (auto simp: pending_iff)
  from i(1) assms(3) have "advance t s = s\<lparr>now := max (now s) t\<rparr>"
    by (intro advance_idle) simp
  with i assms(2) show ?thesis
    by (simp add: on_resize_def update_def clearTimeout_def setTimeout_def debounceDelay_def pending_iff)
qed

lemma on_resize_idle:
  assumes "timers s = []" "0 < next_id s" "now s \<le> t"
  shows "pending t (on_resize s (t, w, h)) \<and>
     notified (on_resize s (t, w, h)) = notified s \<and>
     width (on_resize s (t, w, h)) = width s \<and> height (on_resize s (t, w, h)) = height s \<and>
     innerWidth (on_resize s (t, w, h)) = w \<and> innerHeight (on_resize s (t, w, h)) = h"
proof -
  from assms(1) have "advance t s = s\<lparr>now := max (now s) t\<rparr>"
    by (intro advance_idle) simp
  with assms show ?thesis
    by (cases "timeoutId s")
      (simp_all add: on_resize_def update_def clearTimeout_def setTimeout_def debounceDelay_def pending_iff)
qed

lemma burst_pending:
  assumes "pending t0 s" "innerWidth s = w0" "innerHeight s = h0" "burst t0 es"
  shows "let (tl, wl, hl) = last ((t0, w0, h0) # es); s' = foldl on_resize s es in
     pending tl s' \<and> notified s' = notified s \<and> width s' = width s \<and> height s' = height s \<and>
     innerWidth s' = wl \<and> innerHeight s' = hl"
  using assms
proof (induction es arbitrary: s t0 w0 h0)
  case Nil
  then show ?case by simp
next
  case (Cons e es)
  obtain t w h where e: "e = (t, w, h)" by (cases e)
  with Cons.prems have t: "t0 \<le> t" "t < t0 + 100" and rest: "burst t es"
    by simp_all
  note step = on_resize_pending [OF Cons.prems(1) t, of w h]
  from step have "pending t (on_resize s (t, w, h))" "innerWidth (on_resize s (t, w, h)) = w"
    "innerHeight (on_resize s (t, w, h)) = h"
    by simp_all
  from Cons.IH [OF this rest] step e show ?case
    by (simp add: Let_def split: prod.splits)
qed

lemma advance_pending:
  assumes "pending t0 s" "t0 + 100 \<le> T"
  shows "advance T s = (settle (s\<lparr>timers := [], now := t0 + 100\<rparr>))\<lparr>now := T\<rparr>"
proof -
  from assms(1) obtain i where i: "timers s = [(i, t0 + 100)]" "now s = t0"
    by (auto simp: pending_iff)
  with assms(2) show ?thesis
    by (simp add: advance_def fire_def settle_def Let_def max_def)
qed

text \<open>
  C7. A burst of \<^verbatim>\<open>resize\<close> events, each less than 100 ms after the one before, on
  an instance with no timeout pending: no notification is delivered during the burst; once
  100 ms have passed since the last event there has been one notification, at 100 ms after
  the last event and with the dimensions the window had then, if these differ from the
  stored width or height, and none at all if they do not.
\<close>

theorem resize_debounce:
  assumes "timers s = []" "0 < next_id s" "now s \<le> t" "burst t es"
    "fst (last ((t, w, h) # es)) + 100 \<le> T"
  shows "let evs = (t, w, h) # es; (tl, wl, hl) = last evs;
             s' = advance T (foldl on_resize s evs) in
     notified (foldl on_resize s evs) = notified s \<and>
     notified s' = notified s @ (if wl \<noteq> width s \<or> hl \<noteq> height s then [(tl + 100, wl, hl)] else []) \<and>
     width s' = wl \<and> height s' = hl \<and> timers s' = [] \<and> timeoutId s' = None"
proof -
  let ?s1 = "on_resize s (t, w, h)"
  let ?sn = "foldl on_resize ?s1 es"
  obtain tl wl hl where l: "last ((t, w, h) # es) = (tl, wl, hl)"
    by (cases "last ((t, w, h) # es)")
  note first = on_resize_idle [OF assms(1-3), of w h]
  from first have p1: "pending t ?s1" "innerWidth ?s1 = w" "innerHeight ?s1 = h"
    by simp_all
  from burst_pending [OF p1 assms(4)] l first
  have sn: "pending tl ?sn" "notified ?sn = notified s" "width ?sn = width s" "height ?sn = height s"
    "innerWidth ?sn = wl" "innerHeight ?sn = hl"
    by (simp_all add: Let_def)
  from assms(5) l have "tl + 100 \<le> T"
    by simp
  from advance_pending [OF sn(1) this] sn(2-)
  have "notified (advance T ?sn) =
      notified s @ (if wl \<noteq> width s \<or> hl \<noteq> height s then [(tl + 100, wl, hl)] else [])"
    "width (advance T ?sn) = wl" "height (advance T ?sn) = hl"
    "timers (advance T ?sn) = []" "timeoutId (advance T ?sn) = None"
    by (auto simp: settle_def Let_def)
  with sn(2) l show ?thesis
    by (simp add: Let_def)
qed

theorem resize_debounce_witness:
  "notified (foldl on_resize quiet0 [(10, 900, 768), (60, 800, 700), (150, 640, 480)]) = [] \<and>
   notified (advance 250 (foldl on_resize quiet0 [(10, 900, 768), (60, 800, 700), (150, 640, 480)]))
     = [(250, 640, 480)] \<and>
   notified (advance 400 (foldl on_resize quiet0 [(10, 900, 768), (60, 1024, 768)])) = []"
proof -
  have a: "timers quiet0 = []" "0 < next_id quiet0" "now quiet0 \<le> 10"
    by (simp_all add: quiet0_def)
  have b: "burst 10 [(60, 800, 700), (150, 640, 480)]" "burst 10 [(60, 1024, 768)]"
    by simp_all
  have c: "fst (last ((10, 900, 768) # [(60, 800, 700), (150, 640, 480)])) + 100 \<le> (250::nat)"
    "fst (last ((10, 900, 768) # [(60, 1024, 768)])) + 100 \<le> (400::nat)"
    by simp_all
  from resize_debounce [OF a b(1) c(1)] resize_debounce [OF a b(2) c(2)]
  show ?thesis
    by (simp add: Let_def quiet0_def)
qed

section \<open>Leaving a page: the join, the guard and the clean-up\<close>

lemma call_fn_eq:
  "call_fn f s = (case fn_does f of ThrowsSync \<Rightarrow> None | Returns p \<Rightarrow> Some p,
     s\<lparr>events := events s @ [Ran (fn_tag f)]\<rparr>)"
  by (simp add: call_fn_def Let_def split: behaviour.splits)

lemma visible_events [simp]:
  "isCurrentlyVisible el (s\<lparr>events := e\<rparr>) = isCurrentlyVisible el s"
  by (simp add: isCurrentlyVisible_def)

lemma call_pageOut_eq:
  "call_pageOut c s = (settles s c, s\<lparr>events := events s @ runs s c\<rparr>)"
  by (cases c) (auto simp: settles_def runs_def call_fn_eq split: behaviour.splits)

lemma settles_events [simp]: "settles (s\<lparr>events := e\<rparr>) = settles s"
proof
  fix c show "settles (s\<lparr>events := e\<rparr>) c = settles s c"
    by (cases c) (auto simp: settles_def call_fn_eq split: behaviour.splits)
qed

lemma runs_events [simp]: "runs (s\<lparr>events := e\<rparr>) = runs s"
proof
  fix c show "runs (s\<lparr>events := e\<rparr>) c = runs s c"
    by (cases c) (auto simp: runs_def)
qed

lemma settles_Some: "returns_promise c \<Longrightarrow> \<exists>p. settles s c = Some p"
  by (cases c) (auto simp: settles_def returns_promise_def call_fn_eq split: behaviour.splits)

lemma map_calls_returns:
  assumes "list_all returns_promise cs"
  shows "\<exists>ps. map_calls cs s = (Some ps, s\<lparr>events := events s @ concat (map (runs s) cs)\<rparr>) \<and>
     map Some ps = map (settles s) cs"
  using assms
proof (induction cs arbitrary: s)
  case Nil
  then show ?case by simp
next
  case (Cons c cs)
  from Cons.prems have c: "returns_promise c" and cs: "list_all returns_promise cs"
    by simp_all
  from settles_Some [OF c, of s] obtain p where p: "settles s c = Some p"
    by blast
  let ?s1 = "s\<lparr>events := events s @ runs s c\<rparr>"
  from Cons.IH [OF cs, of ?s1] obtain ps where
    ps: "map_calls cs ?s1 = (Some ps, ?s1\<lparr>events := events ?s1 @ concat (map (runs ?s1) cs)\<rparr>)"
      "map Some ps = map (settles ?s1) cs"
    by blast
  from ps p show ?case
    by (simp add: call_pageOut_eq)
qed

lemma forEach_call_returns:
  assumes "list_all returns_normally fs"
  shows "forEach_call fs s = (True, s\<lparr>events := events s @ map (\<lambda>f. Ran (fn_tag f)) fs\<rparr>)"
  using assms
proof (induction fs arbitrary: s)
  case Nil
  then show ?case by simp
next
  case (Cons f fs)
  then show ?case
    by (cases "fn_does f") (simp_all add: call_fn_eq returns_normally_def)
qed

lemma runPageOut_returns:
  assumes "list_all returns_promise (pageOut s)"
  shows "runPageOut s =
     (if Some NeverSettles \<in> set (map (settles s) (pageOut s))
      then (Hangs, s\<lparr>events := events s @ concat (map (runs s) (pageOut s))\<rparr>)
      else (Done, s\<lparr>pageOut := [], events := events s @ concat (map (runs s) (pageOut s))\<rparr>))"
proof -
  from map_calls_returns [OF assms, of s] obtain ps where
    ps: "map_calls (pageOut s) s = (Some ps, s\<lparr>events := events s @ concat (map (runs s) (pageOut s))\<rparr>)"
      "map Some ps = map (settles s) (pageOut s)"
    by blast
  have "NeverSettles \<in> set ps \<longleftrightarrow> Some NeverSettles \<in> set (map Some ps)"
    by auto
  with ps(2) have "NeverSettles \<in> set ps \<longleftrightarrow> Some NeverSettles \<in> set (map (settles s) (pageOut s))"
    by simp
  with ps(1) show ?thesis
    by (simp add: runPageOut_def allSettled_def)
qed

text \<open>
  C1, as amended. When every \<^verbatim>\<open>pageOut\<close> entry returns a promise (none throws when
  called) and no \<^verbatim>\<open>destroy\<close> function throws, \<^verbatim>\<open>transitionOut\<close> calls every
  \<^verbatim>\<open>pageOut\<close> entry in registration order and waits until every promise has settled,
  fulfilled or rejected alike. If one never settles, it never completes and runs no
  \<^verbatim>\<open>destroy\<close> function. Otherwise it completes without a rejection, having run every
  \<^verbatim>\<open>destroy\<close> function once, in registration order, after the \<^verbatim>\<open>pageOut\<close> calls,
  then reset the scroll position to the top; both registries are empty afterwards.
\<close>

theorem transitionOut_join:
  assumes "list_all returns_promise (pageOut s)" "list_all returns_normally (destroy s)"
  shows "transitionOut s =
     (if Some NeverSettles \<in> set (map (settles s) (pageOut s))
      then (Hangs, s\<lparr>events := events s @ concat (map (runs s) (pageOut s))\<rparr>)
      else (Done, s\<lparr>destroy := [], pageOut := [], scroll_pos := 0,
              events := events s @ concat (map (runs s) (pageOut s)) @
                map (\<lambda>f. Ran (fn_tag f)) (destroy s) @ [ScrollToTop]\<rparr>))"
proof (cases "Some NeverSettles \<in> set (map (settles s) (pageOut s))")
  case True
  with runPageOut_returns [OF assms(1)] show ?thesis
    by (simp add: transitionOut_def)
next
  case False
  let ?s1 = "s\<lparr>pageOut := [], events := events s @ concat (map (runs s) (pageOut s))\<rparr>"
  from False runPageOut_returns [OF assms(1)] have out: "runPageOut s = (Done, ?s1)"
    by simp
  from assms(2) have "list_all returns_normally (destroy ?s1)"
    by simp
  from forEach_call_returns [OF this, of ?s1] have "runDestroy ?s1 =
      (True, ?s1\<lparr>events := events ?s1 @ map (\<lambda>f. Ran (fn_tag f)) (destroy s), destroy := []\<rparr>)"
    by (simp add: runDestroy_def)
  with out False show ?thesis
    by (simp add: transitionOut_def allSettled_def toTop_def)
qed

theorem transitionOut_join_witness:
  "list_all returns_promise (pageOut leaving_page) \<and>
   list_all returns_normally (destroy leaving_page) \<and>
   transitionOut leaving_page =
     (Done, leaving_page\<lparr>destroy := [], pageOut := [], scroll_pos := 0,
        events := [Ran 1, Ran 2, Ran 3, Ran 7, Ran 8, ScrollToTop]\<rparr>)"
proof -
  have h: "list_all returns_promise (pageOut leaving_page)"
    "list_all returns_normally (destroy leaving_page)"
    by (simp_all add: leaving_page_def returns_promise_def returns_normally_def)
  have "map (settles leaving_page) (pageOut leaving_page) =
      [Some Fulfils, Some Rejects, Some Fulfils, Some Fulfils]"
    and "concat (map (runs leaving_page) (pageOut leaving_page)) = [Ran 1, Ran 2, Ran 3]"
    and "map (\<lambda>f. Ran (fn_tag f)) (destroy leaving_page) = [Ran 7, Ran 8]"
    and "events leaving_page = []"
    by (simp_all add: leaving_page_def settles_def runs_def call_fn_def isCurrentlyVisible_def
        box_def Let_def)
  with transitionOut_join [OF h] h show ?thesis
    by simp
qed

text \<open>
  C1 as stated fails for a registry with a \<^verbatim>\<open>destroy\<close> function that throws:
  \<^verbatim>\<open>forEach\<close> passes the exception on, so \<^verbatim>\<open>transitionOut\<close> rejects, the second
  \<^verbatim>\<open>destroy\<close> function is never run, the \<^verbatim>\<open>destroy\<close> registry keeps its entries and
  the scroll position stays where it was.
\<close>

theorem transitionOut_destroy_throw_counterexample:
  "fst (transitionOut failing_destroy) = Rejected \<and>
   events (snd (transitionOut failing_destroy)) = [Ran 7] \<and>
   map fn_tag (destroy (snd (transitionOut failing_destroy))) = [7, 8] \<and>
   scroll_pos (snd (transitionOut failing_destroy)) = 500"
  by (simp add: failing_destroy_def transitionOut_def runPageOut_def runDestroy_def
      allSettled_def call_fn_def Let_def)

lemma transitionOut_pageOut_throw_example:
  "fst (transitionOut failing_pageOut) = Rejected \<and>
   events (snd (transitionOut failing_pageOut)) = [Ran 1] \<and>
   length (pageOut (snd (transitionOut failing_pageOut))) = 2 \<and>
   length (destroy (snd (transitionOut failing_pageOut))) = 1 \<and>
   scroll_pos (snd (transitionOut failing_pageOut)) = 500"
  by (simp add: failing_pageOut_def transitionOut_def runPageOut_def call_fn_def Let_def)

text \<open>
  C5. \<^verbatim>\<open>onPageOut(fn, {element})\<close> registers the guarded closure. Called by
  \<^verbatim>\<open>runPageOut\<close>, the closure tests the element's rectangle against the stored viewport
  height at that moment (top less than the height and bottom greater than 0). When the
  test fails, its promise fulfils and \<open>fn\<close> is not invoked; when it holds, \<open>fn\<close> is
  invoked and the closure's promise settles as the promise of \<open>fn\<close> does.
\<close>

theorem pageOut_element_guard:
  "pageOut (onPageOut f (Some el) s0) = pageOut s0 @ [Guarded el f] \<and>
   (isCurrentlyVisible el s \<longleftrightarrow>
      rect_top (layout s el) < resize_height s \<and> rect_bottom (layout s el) > 0) \<and>
   (\<not> isCurrentlyVisible el s \<longrightarrow> call_pageOut (Guarded el f) s = (Some Fulfils, s)) \<and>
   (isCurrentlyVisible el s \<longrightarrow>
      call_pageOut (Guarded el f) s =
        (Some (case fn_does f of ThrowsSync \<Rightarrow> Rejects | Returns p \<Rightarrow> p),
         s\<lparr>events := events s @ [Ran (fn_tag f)]\<rparr>)) \<and>
   (list_all returns_promise (pageOut s) \<longrightarrow>
      events (snd (runPageOut s)) = events s @ concat (map (runs s) (pageOut s)) \<and>
      runs s (Guarded el f) = (if isCurrentlyVisible el s then [Ran (fn_tag f)] else []))"
proof -
  have reg: "pageOut (onPageOut f (Some el) s0) = pageOut s0 @ [Guarded el f]"
    by (simp add: onPageOut_def)
  have vis: "isCurrentlyVisible el s \<longleftrightarrow>
      rect_top (layout s el) < resize_height s \<and> rect_bottom (layout s el) > 0"
    by (simp add: isCurrentlyVisible_def Let_def)
  have out: "call_pageOut (Guarded el f) s = (Some Fulfils, s)" if "\<not> isCurrentlyVisible el s"
    using that by simp
  have inside: "call_pageOut (Guarded el f) s =
        (Some (case fn_does f of ThrowsSync \<Rightarrow> Rejects | Returns p \<Rightarrow> p),
         s\<lparr>events := events s @ [Ran (fn_tag f)]\<rparr>)" if "isCurrentlyVisible el s"
    using that by (simp add: call_fn_eq split: behaviour.splits)
  have dispatch: "events (snd (runPageOut s)) = events s @ concat (map (runs s) (pageOut s))"
    if "list_all returns_promise (pageOut s)"
    using runPageOut_returns [OF that] by simp
  have r: "runs s (Guarded el f) = (if isCurrentlyVisible el s then [Ran (fn_tag f)] else [])"
    by (simp add: runs_def)
  from reg vis out inside dispatch r show ?thesis
    by blast
qed

theorem pageOut_element_guard_witness:
  "\<not> isCurrentlyVisible 1 leaving_page \<and> isCurrentlyVisible 0 leaving_page \<and>
   list_all returns_promise (pageOut leaving_page) \<and>
   call_pageOut (Guarded 1 \<lparr>fn_tag = 4, fn_does = Returns Fulfils\<rparr>) leaving_page
     = (Some Fulfils, leaving_page) \<and>
   call_pageOut (Guarded 0 \<lparr>fn_tag = 3, fn_does = Returns Fulfils\<rparr>) leaving_page
     = (Some Fulfils, leaving_page\<lparr>events := [Ran 3]\<rparr>) \<and>
   events (snd (runPageOut leaving_page)) = [Ran 1, Ran 2, Ran 3]"
proof -
  have h: "\<not> isCurrentlyVisible 1 leaving_page" "isCurrentlyVisible 0 leaving_page"
    "list_all returns_promise (pageOut leaving_page)"
    by (simp_all add: leaving_page_def isCurrentlyVisible_def box_def returns_promise_def)
  have e: "events leaving_page = []"
    "concat (map (runs leaving_page) (pageOut leaving_page)) = [Ran 1, Ran 2, Ran 3]"
    by (simp_all add: leaving_page_def runs_def isCurrentlyVisible_def box_def)
  let ?f4 = "\<lparr>fn_tag = 4, fn_does = Returns Fulfils\<rparr>"
  let ?f3 = "\<lparr>fn_tag = 3, fn_does = Returns Fulfils\<rparr>"
  from pageOut_element_guard [of ?f4 1 leaving_page leaving_page] h(1)
  have a: "call_pageOut (Guarded 1 ?f4) leaving_page = (Some Fulfils, leaving_page)"
    by blast
  from pageOut_element_guard [of ?f3 0 leaving_page leaving_page] h(2)
  have "call_pageOut (Guarded 0 ?f3) leaving_page =
      (Some (case fn_does ?f3 of ThrowsSync \<Rightarrow> Rejects | Returns p \<Rightarrow> p),
       leaving_page\<lparr>events := events leaving_page @ [Ran (fn_tag ?f3)]\<rparr>)"
    by blast
  with e(1) have b: "call_pageOut (Guarded 0 ?f3) leaving_page =
      (Some Fulfils, leaving_page\<lparr>events := [Ran 3]\<rparr>)"
    by simp
  from pageOut_element_guard [of ?f3 0 leaving_page leaving_page] h(3)
  have "events (snd (runPageOut leaving_page)) =
      events leaving_page @ concat (map (runs leaving_page) (pageOut leaving_page))"
    by blast
  with e have c: "events (snd (runPageOut leaving_page)) = [Ran 1, Ran 2, Ran 3]"
    by simp
  from h a b c show ?thesis
    by blast
qed

section \<open>Track: bounds and progress\<close>

lemma computeBounds_top:
  "cr_top (computeBounds el cfg scroll h w) =
     rect_top el + scroll - (case cfg_top cfg of Top \<Rightarrow> 0 | Center \<Rightarrow> h / 2 | Bottom \<Rightarrow> h)"
  by (cases "cfg_top cfg") (simp_all add: computeBounds_def clientRect_def Let_def)

lemma computeBounds_bottom:
  "cr_bottom (computeBounds el cfg scroll h w) =
     rect_bottom el + scroll - (case cfg_bottom cfg of Top \<Rightarrow> 0 | Center \<Rightarrow> h / 2 | Bottom \<Rightarrow> h)"
  by (cases "cfg_bottom cfg") (simp_all add: computeBounds_def clientRect_def Let_def)

lemma handleScroll_value:
  assumes "inView t" "init t"
  shows "value (handleScroll s t) =
     map_option (clamp 0 1)
       (map_range s (cr_top (bounds t)) (cr_bottom (bounds t))
          (fst (cfg_bounds (config t))) (snd (cfg_bounds (config t))))"
  using assms by (simp add: handleScroll_def Let_def split: option.splits)

lemma handleScroll_unit_interval:
  assumes "inView t" "init t" "cr_top (bounds t) \<noteq> cr_bottom (bounds t)"
  shows "\<exists>v. value (handleScroll s t) = Some v \<and> 0 \<le> v \<and> v \<le> 1"
  using handleScroll_value [OF assms(1,2), of s] assms(3)
  by (auto simp: map_range_def clamp_def min_def max_def)

lemma handleScroll_frame:
  "inView (handleScroll s t) = inView t \<and> init (handleScroll s t) = init t \<and>
   bounds (handleScroll s t) = bounds t \<and> config (handleScroll s t) = config t"
  by (simp add: handleScroll_def Let_def split: option.splits)

lemma resize_track_frame:
  "inView (resize_track el s h w t) = inView t \<and> init (resize_track el s h w t) = init t \<and>
   config (resize_track el s h w t) = config t \<and>
   bounds (resize_track el s h w t) = computeBounds el (config t) s h w"
  by (simp add: resize_track_def handleScroll_frame)

text \<open>
  C4. For an element that spans 100 to 300 of the document, the triggers
  \<^verbatim>\<open>top = "bottom"\<close> and \<^verbatim>\<open>bottom = "top"\<close>, a viewport 800 high and the output range
  from 0 to 1: the bounds \<^verbatim>\<open>#resize\<close> computes are \<open>-700\<close> and \<open>300\<close>, and the
  value the scroll handler computes from then on, while the element is in view, is a
  non-decreasing function of the scroll position, 0 up to \<open>-700\<close>, 1 from \<open>300\<close> on,
  and between 0 and 1 everywhere.
\<close>

theorem track_progress:
  assumes "rect_top el + scroll0 = 100" "rect_bottom el + scroll0 = 300" "rs_height = 800"
    "cfg_bounds (config t0) = (0, 1)" "cfg_top (config t0) = Bottom" "cfg_bottom (config t0) = Top"
    "inView t0" "init t0"
    "t = resize_track el scroll0 rs_height rs_width t0"
  shows "cr_top (bounds t) = - 700 \<and> cr_bottom (bounds t) = 300 \<and>
     (\<exists>V. (\<forall>s. value (handleScroll s t) = Some (V s)) \<and>
          (\<forall>s s'. s \<le> s' \<longrightarrow> V s \<le> V s') \<and>
          (\<forall>s. s \<le> - 700 \<longrightarrow> V s = 0) \<and>
          (\<forall>s. 300 \<le> s \<longrightarrow> V s = 1) \<and>
          (\<forall>s. 0 \<le> V s \<and> V s \<le> 1))"
proof -
  from resize_track_frame [of el scroll0 rs_height rs_width t0] assms(9)
  have t: "inView t = inView t0" "init t = init t0" "config t = config t0"
    "bounds t = computeBounds el (config t0) scroll0 rs_height rs_width"
    by simp_all
  from t(4) assms(1-6) have top: "cr_top (bounds t) = - 700" and bot: "cr_bottom (bounds t) = 300"
    by (simp_all add: computeBounds_top computeBounds_bottom)
  from t assms(7,8) have live: "inView t" "init t"
    by simp_all
  let ?V = "\<lambda>s::real. clamp 0 1 ((s + 700) / 1000)"
  have v: "value (handleScroll s t) = Some (?V s)" for s
    using handleScroll_value [OF live, of s] top bot assms(4) t(3)
    by (simp add: map_range_def)
  have mono: "?V s \<le> ?V s'" if "s \<le> s'" for s s'
    using that by (auto simp: clamp_def min_def max_def divide_right_mono)
  have low: "?V s = 0" if "s \<le> - 700" for s
    using that by (auto simp: clamp_def min_def max_def)
  have high: "?V s = 1" if "300 \<le> s" for s
    using that by (auto simp: clamp_def min_def max_def)
  have range: "0 \<le> ?V s \<and> ?V s \<le> 1" for s
    by (auto simp: clamp_def min_def max_def)
  from v mono low high range have "\<exists>V. (\<forall>s. value (handleScroll s t) = Some (V s)) \<and>
          (\<forall>s s'. s \<le> s' \<longrightarrow> V s \<le> V s') \<and>
          (\<forall>s. s \<le> - 700 \<longrightarrow> V s = 0) \<and>
          (\<forall>s. 300 \<le> s \<longrightarrow> V s = 1) \<and>
          (\<forall>s. 0 \<le> V s \<and> V s \<le> 1)"
    by (intro exI [of _ ?V]) blast
  with top bot show ?thesis
    by simp
qed

text \<open>
  C3 fails on the code: the handler clamps to the interval from 0 to 1, whatever
  \<^verbatim>\<open>config.bounds\<close> is. With the output range from 0.5 to 1 and the element in view at
  scroll position 0, before the scroll position reaches \<^verbatim>\<open>bounds.top\<close>, the value
  computed and passed to the callback is 0.25.
\<close>

theorem track_value_below_bounds:
  "cr_top (bounds scale_track) = 100 \<and> cr_bottom (bounds scale_track) = 300 \<and>
   inView scale_track \<and> cfg_bounds (config scale_track) = (1 / 2, 1) \<and>
   value (handleScroll 0 scale_track) = Some (1 / 4) \<and>
   delivered (handleScroll 0 scale_track) = [(0, Some (1 / 4))]"
  by (simp add: scale_track_def tracking_def scale_config_def computeBounds_def clientRect_def
      box_def handleScroll_def map_range_def clamp_def Let_def)

theorem track_value_below_bounds_witness:
  "inView scale_track \<and> init scale_track \<and>
   (\<exists>v. value (handleScroll 0 scale_track) = Some v \<and> v < fst (cfg_bounds (config scale_track)))"
proof -
  have "inView scale_track" "init scale_track"
    by (simp_all add: scale_track_def tracking_def)
  with track_value_below_bounds show ?thesis
    by (intro conjI exI [of _ "1 / 4"]) simp_all
qed

theorem track_progress_witness:
  "inView last_track \<and> init last_track \<and>
   cr_top (bounds (resize_track (box 100 300) 0 800 1200 last_track)) = - 700 \<and>
   cr_bottom (bounds (resize_track (box 100 300) 0 800 1200 last_track)) = 300 \<and>
   value (handleScroll (- 900) (resize_track (box 100 300) 0 800 1200 last_track)) = Some 0 \<and>
   value (handleScroll (- 200) (resize_track (box 100 300) 0 800 1200 last_track)) = Some (1 / 2) \<and>
   value (handleScroll 450 (resize_track (box 100 300) 0 800 1200 last_track)) = Some 1"
proof -
  let ?t = "resize_track (box 100 300) 0 800 1200 last_track"
  have h: "rect_top (box 100 300) + 0 = 100" "rect_bottom (box 100 300) + 0 = 300"
    "(800::real) = 800"
    "cfg_bounds (config last_track) = (0, 1)" "cfg_top (config last_track) = Bottom"
    "cfg_bottom (config last_track) = Top"
    "inView last_track" "init last_track"
    "?t = resize_track (box 100 300) 0 800 1200 last_track"
    by (simp_all add: last_track_def tracking_def DEFAULT_CONFIG_def box_def)
  from track_progress [OF h] have b: "cr_top (bounds ?t) = - 700" "cr_bottom (bounds ?t) = 300"
    by simp_all
  from resize_track_frame [of "box 100 300" 0 800 1200 last_track] h(4,7,8)
  have live: "inView ?t" "init ?t" "cfg_bounds (config ?t) = (0, 1)"
    by simp_all
  have "value (handleScroll (- 900) ?t) = Some 0"
    "value (handleScroll (- 200) ?t) = Some (1 / 2)"
    "value (handleScroll 450 ?t) = Some 1"
    using handleScroll_value [OF live(1,2)] b live(3)
    by (simp_all add: map_range_def clamp_def)
  with h(7,8) b show ?thesis
    by blast
qed

section \<open>createCycles: repeated scans and throwing bindings\<close>

lemma scan_append:
  "scan m a w (xs @ ys) =
     (case scan m a w xs of (i1, d1, e1) \<Rightarrow>
        (case scan m a w ys of (i2, d2, e2) \<Rightarrow> (i1 @ i2, d1 @ d2, e1 @ e2)))"
  by (induction xs) (auto split: prod.splits)

lemma scan_length: "length (fst (snd (scan m a w xs))) = length xs"
  by (induction xs) (auto split: prod.splits)

lemma scan_nth:
  "i < length xs \<Longrightarrow>
   fst (snd (scan m a w xs)) ! i =
     (if selected a (xs ! i) then fst (snd (cycle_element m a w (xs ! i))) else xs ! i)"
proof (induction xs arbitrary: i)
  case Nil
  then show ?case by simp
next
  case (Cons x xs)
  show ?case
  proof (cases i)
    case 0
    then show ?thesis
      by (auto split: prod.splits)
  next
    case (Suc j)
    with Cons.prems have "j < length xs"
      by simp
    from Cons.IH [OF this] Suc show ?thesis
      by (auto split: prod.splits)
  qed
qed

lemma cycle_element_throw:
  assumes "\<not> initialized e" "binding_throws m a w e"
  shows "cycle_element m a w e =
     (JNull, e\<lparr>moduleInitialized := None\<rparr>, [Invoked (el_id e), Warned (el_id e)])"
  using assms
  by (auto simp: cycle_element_def binding_throws_def binding_def Let_def
      split: option.splits default_export.splits returned.splits)

lemma cycle_element_return:
  assumes "\<not> initialized e" "binding_returns m a w e"
  shows "fst (snd (cycle_element m a w e)) = e\<lparr>moduleInitialized := Some True\<rparr> \<and>
     snd (snd (cycle_element m a w e)) = [Invoked (el_id e)]"
  using assms
  by (auto simp: cycle_element_def binding_returns_def binding_def Let_def
      split: option.splits default_export.splits returned.splits)

lemma binding_flag [simp]: "binding m a (e\<lparr>moduleInitialized := b\<rparr>) = binding m a e"
  by (simp add: binding_def)

lemma binding_throws_flag [simp]:
  "binding_throws m a w (e\<lparr>moduleInitialized := b\<rparr>) = binding_throws m a w e"
  by (simp add: binding_throws_def split: option.splits)

lemma selected_flag [simp]: "selected a (e\<lparr>moduleInitialized := b\<rparr>) = selected a e"
  by (simp add: selected_def)

text \<open>
  The second visit of an element, in a later state: its binding is invoked if and only if
  it threw at the first visit.
\<close>

lemma cycle_element_again:
  assumes "cycle_element m a w e = (item, e', evs)"
  shows "selected a e' = selected a e \<and> el_id e' = el_id e \<and>
     invocations (snd (snd (cycle_element m a w' e'))) =
       (if \<not> initialized e \<and> binding_throws m a w e then [el_id e] else []) \<and>
     (\<not> (\<not> initialized e \<and> binding_throws m a w e) \<longrightarrow> fst (cycle_element m a w' e') = JNull)"
proof (cases "initialized e")
  case True
  with assms show ?thesis
    by (auto simp: cycle_element_def)
next
  case False
  show ?thesis
  proof (cases "binding m a e")
    case None
    with False assms show ?thesis
      by (auto simp: cycle_element_def binding_def binding_throws_def Let_def
          split: option.splits default_export.splits)
  next
    case (Some f)
    show ?thesis
    proof (cases "f w (e\<lparr>moduleInitialized := Some True\<rparr>)")
      case (Value v)
      with Some False assms have "e' = e\<lparr>moduleInitialized := Some True\<rparr>"
        by (auto simp: cycle_element_def binding_def Let_def
            split: option.splits default_export.splits)
      with Some Value show ?thesis
        by (simp add: cycle_element_def initialized_def binding_throws_def selected_def)
    next
      case Thrown
      with Some have bt: "binding_throws m a w e"
        by (simp add: binding_throws_def)
      from cycle_element_throw [OF False bt] assms have e': "e' = e\<lparr>moduleInitialized := None\<rparr>"
        by simp
      have ni: "\<not> initialized e'"
        by (simp add: e' initialized_def)
      have b': "binding m a e' = Some f"
        using Some by (simp add: e')
      have "invocations (snd (snd (cycle_element m a w' e'))) = [el_id e']"
        using ni b'
        by (auto simp: cycle_element_def binding_def Let_def
            split: option.splits default_export.splits returned.splits)
      with False bt e' show ?thesis
        by simp
    qed
  qed
qed

lemma invocations_append: "invocations (xs @ ys) = invocations xs @ invocations ys"
  by (induction xs rule: invocations.induct) simp_all

lemma scan_again:
  assumes "scan m a w doc = (items, doc', evs)"
  shows "invocations (snd (snd (scan m a w' doc'))) =
       map el_id (filter (\<lambda>e. selected a e \<and> \<not> initialized e \<and> binding_throws m a w e) doc) \<and>
     ((\<forall>e \<in> set doc. \<not> binding_throws m a w e) \<longrightarrow>
        filter (\<lambda>item. item \<noteq> JNull) (fst (scan m a w' doc')) = [])"
  using assms
proof (induction doc arbitrary: items doc' evs)
  case Nil
  then show ?case by simp
next
  case (Cons e es)
  obtain is1 ds1 ev1 where rest: "scan m a w es = (is1, ds1, ev1)"
    by (cases "scan m a w es")
  note ih = Cons.IH [OF rest]
  show ?case
  proof (cases "selected a e")
    case False
    with Cons.prems rest have "doc' = e # ds1"
      by auto
    with False ih show ?thesis
      by (auto split: prod.splits)
  next
    case True
    obtain item e' ev where ce: "cycle_element m a w e = (item, e', ev)"
      by (cases "cycle_element m a w e")
    with True Cons.prems rest have d: "doc' = e' # ds1"
      by auto
    note again = cycle_element_again [OF ce, of w']
    from again True have "selected a e'"
      by simp
    with again ih True d show ?thesis
      by (auto simp: invocations_append split: prod.splits)
  qed
qed

lemma second_call:
  "invocations (log (createCycles mods a w' (document (createCycles mods a w doc)))) =
     map el_id (filter (\<lambda>e. selected a e \<and> \<not> initialized e \<and> binding_throws mods a w e) doc) \<and>
   ((\<forall>e \<in> set doc. \<not> binding_throws mods a w e) \<longrightarrow>
      returned (createCycles mods a w' (document (createCycles mods a w doc))) = [])"
proof -
  obtain items doc' evs where s: "scan mods a w doc = (items, doc', evs)"
    by (cases "scan mods a w doc")
  then have d: "document (createCycles mods a w doc) = doc'"
    by (simp add: createCycles_def)
  from scan_again [OF s, of w'] d show ?thesis
    by (auto simp: createCycles_def split: prod.splits)
qed

lemma first_call_marks:
  assumes "i < length doc" "selected a (doc ! i)" "\<not> initialized (doc ! i)"
    "binding_returns mods a w (doc ! i)"
  shows "initialized (document (createCycles mods a w doc) ! i)"
proof -
  have "document (createCycles mods a w doc) = fst (snd (scan mods a w doc))"
    by (simp add: createCycles_def split: prod.splits)
  with scan_nth [OF assms(1), of mods a w] assms(2) cycle_element_return [OF assms(3,4)]
  show ?thesis
    by (simp add: initialized_def)
qed

text \<open>
  C6, as amended. A second \<^verbatim>\<open>createCycles\<close> on the document the first one left, in
  whatever state it runs, invokes the bindings of exactly the elements whose binding threw
  in the first call, whose marker was rolled back. An element whose binding was invoked
  by the first call and returned carries the marker and is skipped. If no binding threw in
  the first call, the second call invokes no binding at all and returns an empty array.
\<close>

theorem createCycles_again:
  "invocations (log (createCycles mods a w' (document (createCycles mods a w doc)))) =
     map el_id (filter (\<lambda>e. selected a e \<and> \<not> initialized e \<and> binding_throws mods a w e) doc) \<and>
   (\<forall>i < length doc.
      selected a (doc ! i) \<and> \<not> initialized (doc ! i) \<and> binding_returns mods a w (doc ! i) \<longrightarrow>
      initialized (document (createCycles mods a w doc) ! i)) \<and>
   ((\<forall>e \<in> set doc. \<not> binding_throws mods a w e) \<longrightarrow>
      invocations (log (createCycles mods a w' (document (createCycles mods a w doc)))) = [] \<and>
      returned (createCycles mods a w' (document (createCycles mods a w doc))) = [])"
proof -
  have calm: "filter (\<lambda>e. selected a e \<and> \<not> initialized e \<and> binding_throws mods a w e) doc = []"
    if "\<forall>e \<in> set doc. \<not> binding_throws mods a w e"
    using that by (simp add: filter_empty_conv)
  from second_call [of mods a w' w doc] calm first_call_marks [of _ doc a mods w]
  show ?thesis
    by simp
qed

theorem createCycles_again_witness:
  "invocations (log (createCycles working_modules ''module'' 0
      [module_element 0 ''cycle'', module_element 1 ''missing'', module_element 2 ''cycle''])) = [0, 2] \<and>
   map initialized (document (createCycles working_modules ''module'' 0
      [module_element 0 ''cycle'', module_element 1 ''missing'', module_element 2 ''cycle'']))
     = [True, False, True] \<and>
   invocations (log (createCycles working_modules ''module'' 1
      (document (createCycles working_modules ''module'' 0
         [module_element 0 ''cycle'', module_element 1 ''missing'', module_element 2 ''cycle''])))) = [] \<and>
   invocations (log (createCycles recovering_modules ''module'' 1
      (document (createCycles recovering_modules ''module'' 0 [module_element 0 ''cycle''])))) = [0] \<and>
   returned (createCycles recovering_modules ''module'' 1
      (document (createCycles recovering_modules ''module'' 0 [module_element 0 ''cycle'']))) = [JUndefined]"
proof -
  let ?doc = "[module_element 0 ''cycle'', module_element 1 ''missing'', module_element 2 ''cycle'']"
  have first: "invocations (log (createCycles working_modules ''module'' 0 ?doc)) = [0, 2]"
    "map initialized (document (createCycles working_modules ''module'' 0 ?doc)) = [True, False, True]"
    by (simp_all add: createCycles_def cycle_element_def selected_def initialized_def
        module_element_def working_modules_def module_path_def Let_def)
  have calm: "\<forall>e \<in> set ?doc. \<not> binding_throws working_modules ''module'' 0 e"
    by (simp add: binding_throws_def binding_def module_element_def working_modules_def
        module_path_def Let_def)
  from createCycles_again [of working_modules "''module''" 1 0 ?doc] calm
  have second: "invocations (log (createCycles working_modules ''module'' 1
      (document (createCycles working_modules ''module'' 0 ?doc)))) = []"
    by blast
  have threw: "filter (\<lambda>e. selected ''module'' e \<and> \<not> initialized e \<and>
        binding_throws recovering_modules ''module'' 0 e) [module_element 0 ''cycle'']
      = [module_element 0 ''cycle'']"
    by (simp add: selected_def initialized_def binding_throws_def binding_def module_element_def
        recovering_modules_def module_path_def Let_def)
  from createCycles_again [of recovering_modules "''module''" 1 0 "[module_element 0 ''cycle'']"] threw
  have retry: "invocations (log (createCycles recovering_modules ''module'' 1
      (document (createCycles recovering_modules ''module'' 0 [module_element 0 ''cycle''])))) = [0]"
    by (simp add: module_element_def)
  have kept: "returned (createCycles recovering_modules ''module'' 1
      (document (createCycles recovering_modules ''module'' 0 [module_element 0 ''cycle'']))) = [JUndefined]"
    by (simp add: createCycles_def cycle_element_def selected_def initialized_def
        module_element_def recovering_modules_def module_path_def Let_def)
  from first second retry kept show ?thesis
    by blast
qed

text \<open>
  C6 as stated fails for an element whose binding throws: the first call invokes the
  binding and leaves the element without the marker, and the second call invokes the
  binding again.
\<close>

theorem createCycles_again_counterexample:
  "invocations (log (createCycles throwing_modules ''module'' 0 [module_element 0 ''cycle''])) = [0] \<and>
   map initialized (document (createCycles throwing_modules ''module'' 0 [module_element 0 ''cycle''])) = [False] \<and>
   invocations (log (createCycles throwing_modules ''module'' 1
      (document (createCycles throwing_modules ''module'' 0 [module_element 0 ''cycle''])))) = [0]"
  by (simp add: createCycles_def cycle_element_def selected_def initialized_def
      module_element_def throwing_modules_def module_path_def Let_def)

text \<open>
  C8. When the binding of an element throws, the function mapped over the elements
  catches the exception: it logs a warning, deletes the marker and yields \<^verbatim>\<open>null\<close>.
  \<^verbatim>\<open>createCycles\<close> returns the array it would return without that element, the element
  is left without the marker, and a further call, in whatever state, invokes its binding
  again.
\<close>

theorem binding_throw_contained:
  assumes "selected a e" "\<not> initialized e" "binding_throws mods a w e"
  shows "cycle_element mods a w e =
       (JNull, e\<lparr>moduleInitialized := None\<rparr>, [Invoked (el_id e), Warned (el_id e)]) \<and>
     returned (createCycles mods a w (pre @ e # post)) = returned (createCycles mods a w (pre @ post)) \<and>
     document (createCycles mods a w (pre @ e # post)) ! length pre = e\<lparr>moduleInitialized := None\<rparr> \<and>
     el_id e \<in> set (invocations (log (createCycles mods a w'
        (document (createCycles mods a w (pre @ e # post))))))"
proof -
  note ce = cycle_element_throw [OF assms(2,3)]
  obtain i1 d1 e1 where p: "scan mods a w pre = (i1, d1, e1)"
    by (cases "scan mods a w pre")
  obtain i2 d2 e2 where q: "scan mods a w post = (i2, d2, e2)"
    by (cases "scan mods a w post")
  from scan_length [of mods a w pre] p have len: "length d1 = length pre"
    by simp
  from p q ce assms(1) have whole: "scan mods a w (pre @ e # post) =
      (i1 @ JNull # i2, d1 @ e\<lparr>moduleInitialized := None\<rparr> # d2,
       e1 @ [Invoked (el_id e), Warned (el_id e)] @ e2)"
    by (simp add: scan_append)
  from p q have without: "scan mods a w (pre @ post) = (i1 @ i2, d1 @ d2, e1 @ e2)"
    by (simp add: scan_append)
  from whole without have ret:
    "returned (createCycles mods a w (pre @ e # post)) = returned (createCycles mods a w (pre @ post))"
    by (simp add: createCycles_def)
  from whole len have nth:
    "document (createCycles mods a w (pre @ e # post)) ! length pre = e\<lparr>moduleInitialized := None\<rparr>"
    by (simp add: createCycles_def nth_append)
  from second_call [of mods a w' w "pre @ e # post"] assms
  have "el_id e \<in> set (invocations (log (createCycles mods a w'
      (document (createCycles mods a w (pre @ e # post))))))"
    by simp
  with ce ret nth show ?thesis
    by simp
qed

theorem binding_throw_contained_witness:
  "selected ''module'' (module_element 1 ''split'') \<and>
   \<not> initialized (module_element 1 ''split'') \<and>
   binding_throws working_modules ''module'' 0 (module_element 1 ''split'') \<and>
   returned (createCycles working_modules ''module'' 0
      [module_element 0 ''cycle'', module_element 1 ''split'', module_element 2 ''cycle''])
     = [JUndefined, JUndefined] \<and>
   map initialized (document (createCycles working_modules ''module'' 0
      [module_element 0 ''cycle'', module_element 1 ''split'', module_element 2 ''cycle'']))
     = [True, False, True] \<and>
   log (createCycles working_modules ''module'' 0
      [module_element 0 ''cycle'', module_element 1 ''split'', module_element 2 ''cycle''])
     = [Invoked 0, Invoked 1, Warned 1, Invoked 2]"
proof -
  let ?e = "module_element 1 ''split''"
  have h: "selected ''module'' ?e" "\<not> initialized ?e"
    "binding_throws working_modules ''module'' 0 ?e"
    by (simp_all add: selected_def initialized_def binding_throws_def binding_def
        module_element_def working_modules_def module_path_def Let_def)
  have without: "returned (createCycles working_modules ''module'' 0
      ([module_element 0 ''cycle''] @ [module_element 2 ''cycle''])) = [JUndefined, JUndefined]"
    by (simp add: createCycles_def cycle_element_def selected_def initialized_def
        module_element_def working_modules_def module_path_def Let_def)
  from binding_throw_contained [OF h, of "[module_element 0 ''cycle'']" "[module_element 2 ''cycle'']"]
    without
  have ret: "returned (createCycles working_modules ''module'' 0
      [module_element 0 ''cycle'', module_element 1 ''split'', module_element 2 ''cycle''])
     = [JUndefined, JUndefined]"
    by simp
  have rest: "map initialized (document (createCycles working_modules ''module'' 0
      [module_element 0 ''cycle'', module_element 1 ''split'', module_element 2 ''cycle'']))
     = [True, False, True]"
    "log (createCycles working_modules ''module'' 0
      [module_element 0 ''cycle'', module_element 1 ''split'', module_element 2 ''cycle''])
     = [Invoked 0, Invoked 1, Warned 1, Invoked 2]"
    by (simp_all add: createCycles_def cycle_element_def selected_def initialized_def
        module_element_def working_modules_def module_path_def Let_def)
  from h ret rest show ?thesis
    by blast
qed

end
